theory Spec2Isabelle
  imports Main "HOL-Library.Word"
begin

section \<open>USB OUT stream boundary detection (luna/gateware/usb/stream.py)\<close>

subsection \<open>Signals\<close>

text \<open>
  The three states of the FSM of \<open>USBOutStreamBoundaryDetector.elaborate\<close>, in the order
  the source declares them. The first one declared is the state the FSM is reset to.
\<close>

datatype fsm_state = WAIT_FOR_FIRST_BYTE | RECEIVE_AND_TRANSMIT | OUTPUT_STROBES

text \<open>
  The signals the detector samples at a clock edge: \<open>unprocessed_stream\<close> (the local
  \<open>in_stream\<close>: \<open>valid\<close>, \<open>next\<close>, and the 8-bit \<open>payload\<close>) and the two status inputs.
  One-bit signals are booleans.
\<close>

record inputs =
  in_stream_valid :: bool
  in_stream_next :: bool
  in_stream_payload :: "8 word"
  complete_in :: bool
  invalid_in :: bool

text \<open>
  The registers of the detector. Every signal assigned in the \<open>usb\<close> domain is a register:
  the FSM state, \<open>processed_stream\<close> (the local \<open>out_stream\<close>), \<open>first\<close>, \<open>last\<close>
  (here \<open>last_sig\<close>, since \<open>last\<close> is the list function), the status outputs, and the four
  internal buffers.
\<close>

record detector =
  fsm :: fsm_state
  out_stream_valid :: bool
  out_stream_next :: bool
  out_stream_payload :: "8 word"
  first :: bool
  last_sig :: bool
  complete_out :: bool
  invalid_out :: bool
  buffered_byte :: "8 word"
  is_first_byte :: bool
  buffered_complete :: bool
  buffered_invalid :: bool

text \<open>Every signal resets to 0, and the FSM to its first state.\<close>

definition reset :: detector where
  "reset = \<lparr> fsm = WAIT_FOR_FIRST_BYTE,
             out_stream_valid = False, out_stream_next = False, out_stream_payload = 0,
             first = False, last_sig = False, complete_out = False, invalid_out = False,
             buffered_byte = 0, is_first_byte = False,
             buffered_complete = False, buffered_invalid = False \<rparr>"

subsection \<open>One clock edge\<close>

text \<open>
  Each FSM state is a function from the registers \<open>s\<close> before the edge and the sampled
  inputs \<open>i\<close> to the registers after the edge. Synchronous assignments read the values from
  before the edge (always \<open>s\<close>), are applied in program order (a later assignment to the
  same signal wins), and a register that is not assigned keeps its value.
\<close>

definition wait_for_first_byte :: "detector \<Rightarrow> inputs \<Rightarrow> detector" where
  "wait_for_first_byte s i =
     (let s1 = s\<lparr> out_stream_valid := False \<rparr>;
          s2 = s1\<lparr> first := False, last_sig := False, out_stream_next := False,
                   buffered_complete := False, buffered_invalid := False,
                   complete_out := False, invalid_out := False \<rparr>
      in if in_stream_valid i \<and> in_stream_next i
         then s2\<lparr> buffered_byte := in_stream_payload i, is_first_byte := True,
                  fsm := RECEIVE_AND_TRANSMIT \<rparr>
         else s2)"

definition receive_and_transmit :: "detector \<Rightarrow> inputs \<Rightarrow> detector" where
  "receive_and_transmit s i =
     (let s1 = s\<lparr> out_stream_valid := True, out_stream_next := False \<rparr>;
          s2 = s1\<lparr> buffered_complete := (buffered_complete s \<or> complete_in i),
                   buffered_invalid := (buffered_invalid s \<or> invalid_in i) \<rparr>;
          s3 = (if in_stream_valid i \<and> in_stream_next i
                then s2\<lparr> out_stream_payload := buffered_byte s, out_stream_next := True,
                         first := is_first_byte s,
                         buffered_byte := in_stream_payload i, is_first_byte := False \<rparr>
                else s2)
      in if \<not> in_stream_valid i
         then s3\<lparr> out_stream_payload := buffered_byte s, out_stream_next := True,
                  first := is_first_byte s, last_sig := True, fsm := OUTPUT_STROBES \<rparr>
         else s3)"

definition output_strobes :: "detector \<Rightarrow> inputs \<Rightarrow> detector" where
  "output_strobes s i =
     s\<lparr> first := False, last_sig := False, out_stream_next := False,
        complete_out := buffered_complete s, invalid_out := buffered_invalid s,
        fsm := WAIT_FOR_FIRST_BYTE \<rparr>"

definition elaborate :: "detector \<Rightarrow> inputs \<Rightarrow> detector" where
  "elaborate s i =
     (case fsm s of
        WAIT_FOR_FIRST_BYTE \<Rightarrow> wait_for_first_byte s i
      | RECEIVE_AND_TRANSMIT \<Rightarrow> receive_and_transmit s i
      | OUTPUT_STROBES \<Rightarrow> output_strobes s i)"

subsection \<open>Runs\<close>

text \<open>
  Clocking the detector through a list of sampled inputs: \<open>clock s is\<close> is the register
  state after the last edge, \<open>trace s is\<close> the list of the states after each edge, so that
  \<open>trace s is ! k\<close> is what the outputs show once input \<open>k\<close> has been sampled.
\<close>

fun clock :: "detector \<Rightarrow> inputs list \<Rightarrow> detector" where
  "clock s [] = s"
| "clock s (i # is) = clock (elaborate s i) is"

fun trace :: "detector \<Rightarrow> inputs list \<Rightarrow> detector list" where
  "trace s [] = []"
| "trace s (i # is) = elaborate s i # trace (elaborate s i) is"

text \<open>
  An element of the processed stream is what the outputs show in a state where
  \<open>out_stream.next\<close> is asserted: the payload with \<open>first\<close> and \<open>last\<close>.
\<close>

definition element :: "detector \<Rightarrow> 8 word \<times> bool \<times> bool" where
  "element s = (out_stream_payload s, first s, last_sig s)"

definition emitted :: "detector list \<Rightarrow> (8 word \<times> bool \<times> bool) list" where
  "emitted ss = map element (filter out_stream_next ss)"

text \<open>An input step that presents the byte \<open>b\<close>, and a step with the stream inactive.\<close>

definition byte_in :: "8 word \<Rightarrow> bool \<Rightarrow> bool \<Rightarrow> inputs" where
  "byte_in b c v = \<lparr> in_stream_valid = True, in_stream_next = True, in_stream_payload = b,
                     complete_in = c, invalid_in = v \<rparr>"

definition inactive :: "8 word \<Rightarrow> bool \<Rightarrow> bool \<Rightarrow> inputs" where
  "inactive b c v = \<lparr> in_stream_valid = False, in_stream_next = False, in_stream_payload = b,
                      complete_in = c, invalid_in = v \<rparr>"

text \<open>
  What a packet with the payload bytes \<open>ps\<close> looks like on the processed stream: every
  byte in order, the one at index 0 marked first and the one at the last index marked last.
\<close>

definition marked :: "8 word list \<Rightarrow> (8 word \<times> bool \<times> bool) list" where
  "marked ps = map (\<lambda>k. (ps ! k, k = 0, Suc k = length ps)) [0..<length ps]"

subsection \<open>Stream records and bridging\<close>

text \<open>
  \<open>USBOutStreamInterface\<close> is a \<open>Record\<close> of the hardware-description library: a name
  and a layout, the ordered list of its fields (name, width, direction). Reading an
  attribute of a record gives the signal of the field of that name, and raises
  \<open>AttributeError\<close> when the layout has no such field.
\<close>

datatype py_error = AttributeError string

datatype direction = DIR_FANIN | DIR_FANOUT

record hrecord =
  rec_name :: string
  layout :: "(string \<times> nat \<times> direction) list"

datatype signal = Field string string

datatype assign = Assign signal signal

definition USBOutStreamInterface :: "string \<Rightarrow> nat \<Rightarrow> hrecord" where
  "USBOutStreamInterface name payload_width =
     \<lparr> rec_name = name,
       layout = [(''valid'', 1, DIR_FANOUT), (''next'', 1, DIR_FANOUT),
                 (''payload'', payload_width, DIR_FANOUT)] \<rparr>"

definition getattr :: "hrecord \<Rightarrow> string \<Rightarrow> py_error + signal" where
  "getattr r f =
     (if f \<in> set (map fst (layout r)) then Inr (Field (rec_name r) f)
      else Inl (AttributeError f))"

text \<open>
  \<open>lhs.eq(rhs)\<close>: the target is evaluated first, then the argument. A list display
  evaluates its elements from left to right; the first exception ends it.
\<close>

definition eq :: "py_error + signal \<Rightarrow> py_error + signal \<Rightarrow> py_error + assign" where
  "eq lhs rhs =
     (case lhs of Inl e \<Rightarrow> Inl e
      | Inr a \<Rightarrow> (case rhs of Inl e \<Rightarrow> Inl e | Inr b \<Rightarrow> Inr (Assign a b)))"

fun collect :: "(py_error + 'a) list \<Rightarrow> py_error + 'a list" where
  "collect [] = Inr []"
| "collect (x # xs) =
     (case x of Inl e \<Rightarrow> Inl e
      | Inr a \<Rightarrow> (case collect xs of Inl e \<Rightarrow> Inl e | Inr as \<Rightarrow> Inr (a # as)))"

text \<open>
  \<open>USBOutStreamInterface.bridge_to\<close>. The receive interface \<open>utmi_rx\<close> is a record
  declared outside this file, so its layout is a parameter.
\<close>

definition bridge_to :: "hrecord \<Rightarrow> hrecord \<Rightarrow> py_error + assign list" where
  "bridge_to self utmi_rx =
     collect [eq (getattr self ''valid'') (getattr utmi_rx ''rx_active''),
              eq (getattr self ''next'') (getattr utmi_rx ''rx_valid''),
              eq (getattr self ''data'') (getattr utmi_rx ''payload'')]"

subsection \<open>An invariant of the FSM\<close>

text \<open>
  What the registers show in each FSM state, in every state reachable from reset: no
  element in the idle state; no strobe and no \<open>last\<close> while streaming; the last element
  and no strobe in the drain state.
\<close>

definition phase_inv :: "detector \<Rightarrow> bool" where
  "phase_inv s =
     (case fsm s of
        WAIT_FOR_FIRST_BYTE \<Rightarrow> \<not> out_stream_next s
      | RECEIVE_AND_TRANSMIT \<Rightarrow> \<not> complete_out s \<and> \<not> invalid_out s \<and> \<not> last_sig s
      | OUTPUT_STROBES \<Rightarrow>
          out_stream_next s \<and> last_sig s \<and> \<not> complete_out s \<and> \<not> invalid_out s)"

section \<open>Single steps\<close>

lemma wait_capture:
  "fsm s = WAIT_FOR_FIRST_BYTE \<Longrightarrow> in_stream_valid i \<Longrightarrow> in_stream_next i \<Longrightarrow>
   elaborate s i = s\<lparr> out_stream_valid := False, first := False, last_sig := False,
                      out_stream_next := False, buffered_complete := False,
                      buffered_invalid := False, complete_out := False, invalid_out := False,
                      buffered_byte := in_stream_payload i, is_first_byte := True,
                      fsm := RECEIVE_AND_TRANSMIT \<rparr>"
  by (simp add: elaborate_def wait_for_first_byte_def Let_def)

lemma wait_stay:
  "fsm s = WAIT_FOR_FIRST_BYTE \<Longrightarrow> \<not> (in_stream_valid i \<and> in_stream_next i) \<Longrightarrow>
   elaborate s i = s\<lparr> out_stream_valid := False, first := False, last_sig := False,
                      out_stream_next := False, buffered_complete := False,
                      buffered_invalid := False, complete_out := False,
                      invalid_out := False \<rparr>"
  by (auto simp add: elaborate_def wait_for_first_byte_def Let_def)

lemma receive_next:
  "fsm s = RECEIVE_AND_TRANSMIT \<Longrightarrow> in_stream_valid i \<Longrightarrow> in_stream_next i \<Longrightarrow>
   elaborate s i = s\<lparr> out_stream_valid := True,
                      buffered_complete := (buffered_complete s \<or> complete_in i),
                      buffered_invalid := (buffered_invalid s \<or> invalid_in i),
                      out_stream_payload := buffered_byte s, out_stream_next := True,
                      first := is_first_byte s,
                      buffered_byte := in_stream_payload i, is_first_byte := False \<rparr>"
  by (simp add: elaborate_def receive_and_transmit_def Let_def)

lemma receive_hold:
  "fsm s = RECEIVE_AND_TRANSMIT \<Longrightarrow> in_stream_valid i \<Longrightarrow> \<not> in_stream_next i \<Longrightarrow>
   elaborate s i = s\<lparr> out_stream_valid := True, out_stream_next := False,
                      buffered_complete := (buffered_complete s \<or> complete_in i),
                      buffered_invalid := (buffered_invalid s \<or> invalid_in i) \<rparr>"
  by (simp add: elaborate_def receive_and_transmit_def Let_def)

lemma receive_end:
  "fsm s = RECEIVE_AND_TRANSMIT \<Longrightarrow> \<not> in_stream_valid i \<Longrightarrow>
   elaborate s i = s\<lparr> out_stream_valid := True,
                      buffered_complete := (buffered_complete s \<or> complete_in i),
                      buffered_invalid := (buffered_invalid s \<or> invalid_in i),
                      out_stream_payload := buffered_byte s, out_stream_next := True,
                      first := is_first_byte s, last_sig := True,
                      fsm := OUTPUT_STROBES \<rparr>"
  by (simp add: elaborate_def receive_and_transmit_def Let_def)

lemma strobes_step:
  "fsm s = OUTPUT_STROBES \<Longrightarrow>
   elaborate s i = s\<lparr> first := False, last_sig := False, out_stream_next := False,
                      complete_out := buffered_complete s,
                      invalid_out := buffered_invalid s, fsm := WAIT_FOR_FIRST_BYTE \<rparr>"
  by (simp add: elaborate_def output_strobes_def)

lemma clock_append: "clock s (xs @ ys) = clock (clock s xs) ys"
  by (induction xs arbitrary: s) simp_all

lemma trace_append: "trace s (xs @ ys) = trace s xs @ trace (clock s xs) ys"
  by (induction xs arbitrary: s) simp_all

lemma length_trace: "length (trace s xs) = length xs"
  by (induction xs arbitrary: s) simp_all

lemma trace_nth: "k < length xs \<Longrightarrow> trace s xs ! k = clock s (take (Suc k) xs)"
proof (induction xs arbitrary: s k)
  case Nil
  then show ?case by simp
next
  case (Cons x xs)
  then show ?case by (cases k) simp_all
qed

section \<open>The streaming state\<close>

lemma clock_snoc: "clock s (xs @ [x]) = elaborate (clock s xs) x"
  by (simp add: clock_append)

lemma rx_step:
  assumes "fsm s = RECEIVE_AND_TRANSMIT" "in_stream_valid i"
  shows "fsm (elaborate s i) = RECEIVE_AND_TRANSMIT"
    and "last_sig (elaborate s i) = last_sig s"
    and "complete_out (elaborate s i) = complete_out s"
    and "invalid_out (elaborate s i) = invalid_out s"
    and "out_stream_valid (elaborate s i)"
    and "buffered_complete (elaborate s i) = (buffered_complete s \<or> complete_in i)"
    and "buffered_invalid (elaborate s i) = (buffered_invalid s \<or> invalid_in i)"
    and "out_stream_next (elaborate s i) = in_stream_next i"
    and "buffered_byte (elaborate s i) = (if in_stream_next i then in_stream_payload i else buffered_byte s)"
    and "is_first_byte (elaborate s i) = (is_first_byte s \<and> \<not> in_stream_next i)"
    and "in_stream_next i \<Longrightarrow> out_stream_payload (elaborate s i) = buffered_byte s"
    and "in_stream_next i \<Longrightarrow> first (elaborate s i) = is_first_byte s"
  using assms by (cases "in_stream_next i"; simp add: receive_next receive_hold)+

lemma rx_clock:
  assumes "fsm s = RECEIVE_AND_TRANSMIT" "\<forall>i\<in>set ins. in_stream_valid i"
  shows "fsm (clock s ins) = RECEIVE_AND_TRANSMIT"
    and "last_sig (clock s ins) = last_sig s"
    and "complete_out (clock s ins) = complete_out s"
    and "invalid_out (clock s ins) = invalid_out s"
    and "buffered_complete (clock s ins) = (buffered_complete s \<or> (\<exists>i\<in>set ins. complete_in i))"
    and "buffered_invalid (clock s ins) = (buffered_invalid s \<or> (\<exists>i\<in>set ins. invalid_in i))"
    and "buffered_byte (clock s ins) = last (buffered_byte s # map in_stream_payload (filter in_stream_next ins))"
    and "is_first_byte (clock s ins) = (is_first_byte s \<and> filter in_stream_next ins = [])"
    and "ins \<noteq> [] \<Longrightarrow> out_stream_valid (clock s ins)"
  using assms
proof (induction ins arbitrary: s)
  case Nil
  {case 1 then show ?case by simp next
   case 2 then show ?case by simp next
   case 3 then show ?case by simp next
   case 4 then show ?case by simp next
   case 5 then show ?case by simp next
   case 6 then show ?case by simp next
   case 7 then show ?case by simp next
   case 8 then show ?case by simp next
   case 9 then show ?case by simp }
next
  case (Cons i ins)
  {case 1 then show ?case using Cons.IH(1)[of "elaborate s i"] by (simp add: rx_step) next
   case 2 then show ?case using Cons.IH(2)[of "elaborate s i"] by (simp add: rx_step) next
   case 3 then show ?case using Cons.IH(3)[of "elaborate s i"] by (simp add: rx_step) next
   case 4 then show ?case using Cons.IH(4)[of "elaborate s i"] by (simp add: rx_step) next
   case 5 then show ?case using Cons.IH(5)[of "elaborate s i"] by (auto simp add: rx_step) next
   case 6 then show ?case using Cons.IH(6)[of "elaborate s i"] by (auto simp add: rx_step) next
   case 7 then show ?case using Cons.IH(7)[of "elaborate s i"] by (simp add: rx_step) next
   case 8 then show ?case using Cons.IH(8)[of "elaborate s i"] by (auto simp add: rx_step) next
   case 9 then show ?case using Cons.IH(9)[of "elaborate s i"] by (cases ins) (simp_all add: rx_step) }
qed

lemma end_step:
  assumes "fsm s = RECEIVE_AND_TRANSMIT" "\<not> in_stream_valid i"
  shows "fsm (elaborate s i) = OUTPUT_STROBES"
    and "out_stream_next (elaborate s i)"
    and "last_sig (elaborate s i)"
    and "out_stream_payload (elaborate s i) = buffered_byte s"
    and "first (elaborate s i) = is_first_byte s"
    and "complete_out (elaborate s i) = complete_out s"
    and "invalid_out (elaborate s i) = invalid_out s"
    and "buffered_complete (elaborate s i) = (buffered_complete s \<or> complete_in i)"
    and "buffered_invalid (elaborate s i) = (buffered_invalid s \<or> invalid_in i)"
    and "out_stream_valid (elaborate s i)"
  using assms by (simp_all add: receive_end)

lemma drain_step:
  assumes "fsm s = OUTPUT_STROBES"
  shows "fsm (elaborate s i) = WAIT_FOR_FIRST_BYTE"
    and "\<not> out_stream_next (elaborate s i)"
    and "\<not> first (elaborate s i)"
    and "\<not> last_sig (elaborate s i)"
    and "complete_out (elaborate s i) = buffered_complete s"
    and "invalid_out (elaborate s i) = buffered_invalid s"
    and "out_stream_valid (elaborate s i) = out_stream_valid s"
  using assms by (simp_all add: strobes_step)

lemma wait_step:
  assumes "fsm s = WAIT_FOR_FIRST_BYTE"
  shows "fsm (elaborate s i) =
           (if in_stream_valid i \<and> in_stream_next i then RECEIVE_AND_TRANSMIT
            else WAIT_FOR_FIRST_BYTE)"
    and "\<not> out_stream_next (elaborate s i)"
    and "\<not> first (elaborate s i)"
    and "\<not> last_sig (elaborate s i)"
    and "\<not> complete_out (elaborate s i)"
    and "\<not> invalid_out (elaborate s i)"
    and "\<not> buffered_complete (elaborate s i)"
    and "\<not> buffered_invalid (elaborate s i)"
    and "\<not> out_stream_valid (elaborate s i)"
    and "in_stream_valid i \<and> in_stream_next i \<Longrightarrow> buffered_byte (elaborate s i) = in_stream_payload i"
    and "in_stream_valid i \<and> in_stream_next i \<Longrightarrow> is_first_byte (elaborate s i)"
  using assms
  by (cases "in_stream_valid i \<and> in_stream_next i"; simp add: wait_capture wait_stay)+

section \<open>A packet, from capture to drain\<close>

text \<open>
  A packet: the step that captures the first byte in the idle state, then steps with
  \<open>valid\<close> held (with or without \<open>next\<close>), then the step at which \<open>valid\<close> is low.
\<close>

lemma packet_streaming:
  assumes "fsm s = WAIT_FOR_FIRST_BYTE" "in_stream_valid i0" "in_stream_next i0"
    "\<forall>i\<in>set rest. in_stream_valid i"
  shows "fsm (clock s (i0 # rest)) = RECEIVE_AND_TRANSMIT"
    and "\<not> last_sig (clock s (i0 # rest))"
    and "\<not> complete_out (clock s (i0 # rest))"
    and "\<not> invalid_out (clock s (i0 # rest))"
    and "buffered_complete (clock s (i0 # rest)) = (\<exists>i\<in>set rest. complete_in i)"
    and "buffered_invalid (clock s (i0 # rest)) = (\<exists>i\<in>set rest. invalid_in i)"
    and "buffered_byte (clock s (i0 # rest)) =
           last (in_stream_payload i0 # map in_stream_payload (filter in_stream_next rest))"
    and "is_first_byte (clock s (i0 # rest)) = (filter in_stream_next rest = [])"
    and "out_stream_valid (clock s (i0 # rest)) = (rest \<noteq> [])"
proof -
  let ?s1 = "elaborate s i0"
  have f: "fsm ?s1 = RECEIVE_AND_TRANSMIT"
    using assms(1-3) by (simp add: wait_step)
  note rx = rx_clock[OF f assms(4)]
  show "fsm (clock s (i0 # rest)) = RECEIVE_AND_TRANSMIT"
    using rx(1) by simp
  show "\<not> last_sig (clock s (i0 # rest))"
    using rx(2) assms(1) by (simp add: wait_step)
  show "\<not> complete_out (clock s (i0 # rest))"
    using rx(3) assms(1) by (simp add: wait_step)
  show "\<not> invalid_out (clock s (i0 # rest))"
    using rx(4) assms(1) by (simp add: wait_step)
  show "buffered_complete (clock s (i0 # rest)) = (\<exists>i\<in>set rest. complete_in i)"
    using rx(5) assms(1) by (simp add: wait_step)
  show "buffered_invalid (clock s (i0 # rest)) = (\<exists>i\<in>set rest. invalid_in i)"
    using rx(6) assms(1) by (simp add: wait_step)
  show "buffered_byte (clock s (i0 # rest)) =
           last (in_stream_payload i0 # map in_stream_payload (filter in_stream_next rest))"
    using rx(7) assms(1-3) by (simp add: wait_step)
  show "is_first_byte (clock s (i0 # rest)) = (filter in_stream_next rest = [])"
    using rx(8) assms(1-3) by (simp add: wait_step)
  show "out_stream_valid (clock s (i0 # rest)) = (rest \<noteq> [])"
    using rx(9) assms(1) by (cases rest) (simp_all add: wait_step)
qed

lemma packet_ended:
  assumes "fsm s = WAIT_FOR_FIRST_BYTE" "in_stream_valid i0" "in_stream_next i0"
    "\<forall>i\<in>set rest. in_stream_valid i" "\<not> in_stream_valid fin"
  shows "fsm (clock s (i0 # rest @ [fin])) = OUTPUT_STROBES"
    and "out_stream_next (clock s (i0 # rest @ [fin]))"
    and "last_sig (clock s (i0 # rest @ [fin]))"
    and "out_stream_payload (clock s (i0 # rest @ [fin])) =
           last (in_stream_payload i0 # map in_stream_payload (filter in_stream_next rest))"
    and "first (clock s (i0 # rest @ [fin])) = (filter in_stream_next rest = [])"
    and "\<not> complete_out (clock s (i0 # rest @ [fin]))"
    and "\<not> invalid_out (clock s (i0 # rest @ [fin]))"
    and "buffered_complete (clock s (i0 # rest @ [fin])) = (\<exists>i\<in>set (rest @ [fin]). complete_in i)"
    and "buffered_invalid (clock s (i0 # rest @ [fin])) = (\<exists>i\<in>set (rest @ [fin]). invalid_in i)"
    and "out_stream_valid (clock s (i0 # rest @ [fin]))"
proof -
  note ps = packet_streaming[OF assms(1-4)]
  have c: "clock s (i0 # rest @ [fin]) = elaborate (clock s (i0 # rest)) fin"
    using clock_snoc[of s "i0 # rest" fin] by simp
  note es = end_step[OF ps(1) assms(5)]
  show "fsm (clock s (i0 # rest @ [fin])) = OUTPUT_STROBES"
    unfolding c by (rule es(1))
  show "out_stream_next (clock s (i0 # rest @ [fin]))"
    unfolding c by (rule es(2))
  show "last_sig (clock s (i0 # rest @ [fin]))"
    unfolding c by (rule es(3))
  show "out_stream_payload (clock s (i0 # rest @ [fin])) =
           last (in_stream_payload i0 # map in_stream_payload (filter in_stream_next rest))"
    unfolding c using es(4) ps(7) by simp
  show "first (clock s (i0 # rest @ [fin])) = (filter in_stream_next rest = [])"
    unfolding c using es(5) ps(8) by simp
  show "\<not> complete_out (clock s (i0 # rest @ [fin]))"
    unfolding c using es(6) ps(3) by simp
  show "\<not> invalid_out (clock s (i0 # rest @ [fin]))"
    unfolding c using es(7) ps(4) by simp
  show "buffered_complete (clock s (i0 # rest @ [fin])) = (\<exists>i\<in>set (rest @ [fin]). complete_in i)"
    unfolding c using es(8) ps(5) by auto
  show "buffered_invalid (clock s (i0 # rest @ [fin])) = (\<exists>i\<in>set (rest @ [fin]). invalid_in i)"
    unfolding c using es(9) ps(6) by auto
  show "out_stream_valid (clock s (i0 # rest @ [fin]))"
    unfolding c by (rule es(10))
qed

lemma packet_drained:
  assumes "fsm s = WAIT_FOR_FIRST_BYTE" "in_stream_valid i0" "in_stream_next i0"
    "\<forall>i\<in>set rest. in_stream_valid i" "\<not> in_stream_valid fin"
  shows "fsm (clock s (i0 # rest @ [fin, d])) = WAIT_FOR_FIRST_BYTE"
    and "\<not> out_stream_next (clock s (i0 # rest @ [fin, d]))"
    and "\<not> first (clock s (i0 # rest @ [fin, d]))"
    and "\<not> last_sig (clock s (i0 # rest @ [fin, d]))"
    and "complete_out (clock s (i0 # rest @ [fin, d])) = (\<exists>i\<in>set (rest @ [fin]). complete_in i)"
    and "invalid_out (clock s (i0 # rest @ [fin, d])) = (\<exists>i\<in>set (rest @ [fin]). invalid_in i)"
    and "out_stream_valid (clock s (i0 # rest @ [fin, d]))"
proof -
  note pe = packet_ended[OF assms]
  have c: "clock s (i0 # rest @ [fin, d]) = elaborate (clock s (i0 # rest @ [fin])) d"
    using clock_snoc[of s "i0 # rest @ [fin]" d] by simp
  note ds = drain_step[OF pe(1), of d]
  show "fsm (clock s (i0 # rest @ [fin, d])) = WAIT_FOR_FIRST_BYTE"
    unfolding c by (rule ds(1))
  show "\<not> out_stream_next (clock s (i0 # rest @ [fin, d]))"
    unfolding c by (rule ds(2))
  show "\<not> first (clock s (i0 # rest @ [fin, d]))"
    unfolding c by (rule ds(3))
  show "\<not> last_sig (clock s (i0 # rest @ [fin, d]))"
    unfolding c by (rule ds(4))
  show "complete_out (clock s (i0 # rest @ [fin, d])) = (\<exists>i\<in>set (rest @ [fin]). complete_in i)"
    unfolding c using ds(5) pe(8) by simp
  show "invalid_out (clock s (i0 # rest @ [fin, d])) = (\<exists>i\<in>set (rest @ [fin]). invalid_in i)"
    unfolding c using ds(6) pe(9) by simp
  show "out_stream_valid (clock s (i0 # rest @ [fin, d]))"
    unfolding c using ds(7) pe(10) by simp
qed

text \<open>The states of the trace of a packet.\<close>

lemma packet_trace_shape:
  "trace s (i0 # rest @ [fin, d]) =
     elaborate s i0 # (trace (elaborate s i0) rest @ [clock s (i0 # rest @ [fin])]) @
       [clock s (i0 # rest @ [fin, d])]"
  by (simp add: trace_append clock_append)

text \<open>A packet in which steps without an advance pulse may occur while \<open>valid\<close> is held.\<close>

lemma marked_Cons:
  "marked (p # ps) =
     (if ps = [] then [(p, True, True)]
      else (p, True, False) # map (\<lambda>b. (b, False, False)) (butlast ps) @ [(last ps, False, True)])"
proof (cases ps rule: rev_cases)
  case Nil
  then show ?thesis by (simp add: marked_def)
next
  case (snoc qs q)
  have "marked (p # qs @ [q]) =
      (p, True, False) # map (\<lambda>b. (b, False, False)) qs @ [(q, False, True)]"
  proof (rule nth_equalityI)
    show "length (marked (p # qs @ [q])) =
      length ((p, True, False) # map (\<lambda>b. (b, False, False)) qs @ [(q, False, True)])"
      by (simp add: marked_def)
  next
    fix k assume "k < length (marked (p # qs @ [q]))"
    then have k: "k < Suc (Suc (length qs))" by (simp add: marked_def)
    then have l: "marked (p # qs @ [q]) ! k = ((p # qs @ [q]) ! k, k = 0, k = Suc (length qs))"
      by (simp add: marked_def del: upt_Suc)
    show "marked (p # qs @ [q]) ! k =
      ((p, True, False) # map (\<lambda>b. (b, False, False)) qs @ [(q, False, True)]) ! k"
      unfolding l using k by (cases k) (auto simp: nth_append)
  qed
  with snoc show ?thesis by simp
qed

lemma rx_emitted:
  assumes "fsm s = RECEIVE_AND_TRANSMIT" "\<forall>i\<in>set ins. in_stream_valid i" "\<not> last_sig s"
  shows "emitted (trace s ins) =
     (if filter in_stream_next ins = [] then []
      else (buffered_byte s, is_first_byte s, False) #
           map (\<lambda>b. (b, False, False)) (butlast (map in_stream_payload (filter in_stream_next ins))))"
  using assms
proof (induction ins arbitrary: s)
  case Nil
  then show ?case by (simp add: emitted_def)
next
  case (Cons i ins)
  let ?s' = "elaborate s i"
  have i: "in_stream_valid i" and v: "\<forall>i\<in>set ins. in_stream_valid i"
    using Cons.prems(2) by simp_all
  note st = rx_step[OF Cons.prems(1) i]
  have l: "\<not> last_sig ?s'" using st(2) Cons.prems(3) by simp
  note ih = Cons.IH[OF st(1) v l]
  have e: "emitted (trace s (i # ins)) =
      (if in_stream_next i then [element ?s'] else []) @ emitted (trace ?s' ins)"
    using st(8) by (simp add: emitted_def)
  show ?case
  proof (cases "in_stream_next i")
    case True
    have "element ?s' = (buffered_byte s, is_first_byte s, False)"
      using st(11,12)[OF True] l by (simp add: element_def)
    then show ?thesis
      unfolding e ih using True st(9,10) by simp
  next
    case False
    then show ?thesis
      unfolding e ih using st(9,10) by simp
  qed
qed

lemma rx_trace:
  assumes "fsm s = RECEIVE_AND_TRANSMIT" "\<forall>i\<in>set ins. in_stream_valid i" "k < length ins"
  shows "fsm (trace s ins ! k) = RECEIVE_AND_TRANSMIT"
    and "last_sig (trace s ins ! k) = last_sig s"
    and "complete_out (trace s ins ! k) = complete_out s"
    and "invalid_out (trace s ins ! k) = invalid_out s"
    and "out_stream_valid (trace s ins ! k)"
proof -
  have v: "\<forall>i\<in>set (take (Suc k) ins). in_stream_valid i"
    using assms(2) by (auto dest: in_set_takeD)
  have ne: "take (Suc k) ins \<noteq> []"
    using assms(3) by (cases ins) simp_all
  have t: "trace s ins ! k = clock s (take (Suc k) ins)"
    using assms(3) by (rule trace_nth)
  note rx = rx_clock[OF assms(1) v]
  show "fsm (trace s ins ! k) = RECEIVE_AND_TRANSMIT" unfolding t by (rule rx(1))
  show "last_sig (trace s ins ! k) = last_sig s" unfolding t by (rule rx(2))
  show "complete_out (trace s ins ! k) = complete_out s" unfolding t by (rule rx(3))
  show "invalid_out (trace s ins ! k) = invalid_out s" unfolding t by (rule rx(4))
  show "out_stream_valid (trace s ins ! k)" unfolding t by (rule rx(9)[OF ne])
qed

lemma packet_emitted_gaps:
  assumes "fsm s = WAIT_FOR_FIRST_BYTE" "in_stream_valid i0" "in_stream_next i0"
    "\<forall>i\<in>set rest. in_stream_valid i" "\<not> in_stream_valid fin"
  shows "emitted (trace s (i0 # rest @ [fin, d])) =
           marked (in_stream_payload i0 # map in_stream_payload (filter in_stream_next rest))"
proof -
  let ?s1 = "elaborate s i0"
  let ?ps = "map in_stream_payload (filter in_stream_next rest)"
  have s1: "fsm ?s1 = RECEIVE_AND_TRANSMIT" "buffered_byte ?s1 = in_stream_payload i0"
    "is_first_byte ?s1" "\<not> last_sig ?s1" "\<not> out_stream_next ?s1"
    using assms(1-3) by (simp_all add: wait_step)
  note pe = packet_ended[OF assms]
  note pd = packet_drained[OF assms, of d]
  have "emitted (trace s (i0 # rest @ [fin, d])) =
      emitted (trace ?s1 rest) @ [element (clock s (i0 # rest @ [fin]))]"
    unfolding packet_trace_shape using s1(5) pe(2) pd(2) by (simp add: emitted_def)
  also have "element (clock s (i0 # rest @ [fin])) =
      (last (in_stream_payload i0 # ?ps), ?ps = [], True)"
    unfolding element_def using pe(3,4,5) by simp
  also have "emitted (trace ?s1 rest) =
     (if ?ps = [] then []
      else (in_stream_payload i0, True, False) # map (\<lambda>b. (b, False, False)) (butlast ?ps))"
    using rx_emitted[OF s1(1) assms(4) s1(4)] s1(2,3) by simp
  finally show ?thesis
    by (simp add: marked_Cons)
qed

section \<open>The idle state\<close>

lemma idle_trace:
  assumes "fsm s = WAIT_FOR_FIRST_BYTE" "\<forall>i\<in>set ins. \<not> (in_stream_valid i \<and> in_stream_next i)"
    "t \<in> set (trace s ins)"
  shows "fsm t = WAIT_FOR_FIRST_BYTE \<and> \<not> out_stream_valid t \<and> \<not> out_stream_next t \<and>
         \<not> first t \<and> \<not> last_sig t \<and> \<not> complete_out t \<and> \<not> invalid_out t"
  using assms
proof (induction ins arbitrary: s)
  case Nil
  then show ?case by simp
next
  case (Cons i ins)
  have i: "\<not> (in_stream_valid i \<and> in_stream_next i)"
    and r: "\<forall>i\<in>set ins. \<not> (in_stream_valid i \<and> in_stream_next i)"
    using Cons.prems(2) by simp_all
  note w = wait_step[OF Cons.prems(1), of i]
  have f: "fsm (elaborate s i) = WAIT_FOR_FIRST_BYTE"
    using w(1) i by simp
  from Cons.prems(3) have "t = elaborate s i \<or> t \<in> set (trace (elaborate s i) ins)"
    by simp
  then show ?case
  proof
    assume "t = elaborate s i"
    then show ?thesis using w f by simp
  next
    assume "t \<in> set (trace (elaborate s i) ins)"
    then show ?thesis by (rule Cons.IH[OF f r])
  qed
qed

lemma idle_clock:
  assumes "fsm s = WAIT_FOR_FIRST_BYTE" "\<forall>i\<in>set ins. \<not> (in_stream_valid i \<and> in_stream_next i)"
  shows "fsm (clock s ins) = WAIT_FOR_FIRST_BYTE"
  using assms
proof (induction ins arbitrary: s)
  case Nil
  then show ?case by simp
next
  case (Cons i ins)
  have "fsm (elaborate s i) = WAIT_FOR_FIRST_BYTE"
    using wait_step(1)[OF Cons.prems(1), of i] Cons.prems(2) by simp
  then show ?case
    using Cons.IH[of "elaborate s i"] Cons.prems(2) by simp
qed

lemma emitted_append: "emitted (xs @ ys) = emitted xs @ emitted ys"
  by (simp add: emitted_def)

lemma map_all_False:
  "(\<And>t. t \<in> set xs \<Longrightarrow> \<not> f t) \<Longrightarrow> map f xs = replicate (length xs) False"
  by (induction xs) simp_all

lemma after_packet_trace:
  assumes "fsm s = OUTPUT_STROBES" "\<not> buffered_complete s" "\<not> buffered_invalid s"
    "\<forall>i\<in>set ins. \<not> (in_stream_valid i \<and> in_stream_next i)" "t \<in> set (trace s ins)"
  shows "\<not> out_stream_next t \<and> \<not> complete_out t \<and> \<not> invalid_out t"
proof (cases ins)
  case Nil
  then show ?thesis using assms(5) by simp
next
  case (Cons i rest)
  note d = drain_step[OF assms(1), of i]
  have r: "\<forall>i\<in>set rest. \<not> (in_stream_valid i \<and> in_stream_next i)"
    using assms(4) Cons by simp
  from assms(5) Cons have "t = elaborate s i \<or> t \<in> set (trace (elaborate s i) rest)"
    by simp
  then show ?thesis
  proof
    assume "t = elaborate s i"
    then show ?thesis using d assms(2,3) by simp
  next
    assume "t \<in> set (trace (elaborate s i) rest)"
    then show ?thesis using idle_trace[OF d(1) r] by simp
  qed
qed

text \<open>The scenario of the unit test, evaluated from reset.\<close>

lemma scenario_packet:
  "emitted (trace reset [byte_in 0xAA False False, byte_in 0xBB False False,
       byte_in 0xCC False False, byte_in 0xDD False False, inactive b False False]) =
     [(0xAA, True, False), (0xBB, False, False), (0xCC, False, False), (0xDD, False, True)]"
  "map complete_out (trace reset [byte_in 0xAA False False, byte_in 0xBB False False,
       byte_in 0xCC False False, byte_in 0xDD False False, inactive b False False]) =
     [False, False, False, False, False]"
  "map invalid_out (trace reset [byte_in 0xAA False False, byte_in 0xBB False False,
       byte_in 0xCC False False, byte_in 0xDD False False, inactive b False False]) =
     [False, False, False, False, False]"
  "fsm (clock reset [byte_in 0xAA False False, byte_in 0xBB False False,
       byte_in 0xCC False False, byte_in 0xDD False False, inactive b False False]) = OUTPUT_STROBES"
  "\<not> buffered_complete (clock reset [byte_in 0xAA False False, byte_in 0xBB False False,
       byte_in 0xCC False False, byte_in 0xDD False False, inactive b False False])"
  "\<not> buffered_invalid (clock reset [byte_in 0xAA False False, byte_in 0xBB False False,
       byte_in 0xCC False False, byte_in 0xDD False False, inactive b False False])"
  by (simp_all add: emitted_def element_def reset_def byte_in_def inactive_def elaborate_def
      wait_for_first_byte_def receive_and_transmit_def output_strobes_def Let_def)

lemma rx_trace_set:
  assumes "fsm s = RECEIVE_AND_TRANSMIT" "\<forall>i\<in>set ins. in_stream_valid i"
    "t \<in> set (trace s ins)"
  shows "fsm t = RECEIVE_AND_TRANSMIT" and "last_sig t = last_sig s"
    and "complete_out t = complete_out s" and "invalid_out t = invalid_out s"
    and "out_stream_valid t"
proof -
  obtain k where k: "k < length (trace s ins)" and t: "t = trace s ins ! k"
    using assms(3) by (metis in_set_conv_nth)
  have kl: "k < length ins"
    using k by (simp only: length_trace)
  note r = rx_trace[OF assms(1,2) kl]
  show "fsm t = RECEIVE_AND_TRANSMIT" unfolding t by (rule r(1))
  show "last_sig t = last_sig s" unfolding t by (rule r(2))
  show "complete_out t = complete_out s" unfolding t by (rule r(3))
  show "invalid_out t = invalid_out s" unfolding t by (rule r(4))
  show "out_stream_valid t" unfolding t by (rule r(5))
qed

lemma packet_trace_shape3:
  "trace s (i0 # rest @ [fin, d, e]) =
     elaborate s i0 # trace (elaborate s i0) rest @
       [clock s (i0 # rest @ [fin]), clock s (i0 # rest @ [fin, d]),
        elaborate (clock s (i0 # rest @ [fin, d])) e]"
  by (simp add: trace_append clock_append)

lemma replicate_False_shape:
  "replicate (n + 1) False @ [True, False, False] =
     False # replicate n False @ [True, False, False]"
  "replicate (n + 2) False @ [x, False] = False # replicate n False @ [False, x, False]"
  by (simp_all add: replicate_append_same)

lemma packet_status_trace:
  assumes "fsm s = WAIT_FOR_FIRST_BYTE" "in_stream_valid i0" "in_stream_next i0"
    "\<forall>i\<in>set rest. in_stream_valid i" "\<not> in_stream_valid fin"
  shows "map last_sig (trace s (i0 # rest @ [fin, d, e])) =
           replicate (length rest + 1) False @ [True, False, False]"
    and "map complete_out (trace s (i0 # rest @ [fin, d, e])) =
           replicate (length rest + 2) False @ [\<exists>i\<in>set (rest @ [fin]). complete_in i, False]"
    and "map invalid_out (trace s (i0 # rest @ [fin, d, e])) =
           replicate (length rest + 2) False @ [\<exists>i\<in>set (rest @ [fin]). invalid_in i, False]"
proof -
  let ?s1 = "elaborate s i0"
  let ?sF = "clock s (i0 # rest @ [fin])"
  let ?sD = "clock s (i0 # rest @ [fin, d])"
  let ?sE = "elaborate ?sD e"
  have s1: "fsm ?s1 = RECEIVE_AND_TRANSMIT" "\<not> last_sig ?s1" "\<not> complete_out ?s1"
    "\<not> invalid_out ?s1"
    using assms(1-3) by (simp_all add: wait_step)
  note pe = packet_ended[OF assms]
  note pd = packet_drained[OF assms, of d]
  note we = wait_step[OF pd(1), of e]
  note rx = rx_trace_set[OF s1(1) assms(4)]
  have len: "length (trace ?s1 rest) = length rest"
    by (rule length_trace)
  have ml: "map last_sig (trace ?s1 rest) = replicate (length rest) False"
    using map_all_False[of "trace ?s1 rest" last_sig] rx(2) s1(2) unfolding len by blast
  have mc: "map complete_out (trace ?s1 rest) = replicate (length rest) False"
    using map_all_False[of "trace ?s1 rest" complete_out] rx(3) s1(3) unfolding len by blast
  have mi: "map invalid_out (trace ?s1 rest) = replicate (length rest) False"
    using map_all_False[of "trace ?s1 rest" invalid_out] rx(4) s1(4) unfolding len by blast
  show "map last_sig (trace s (i0 # rest @ [fin, d, e])) =
           replicate (length rest + 1) False @ [True, False, False]"
    unfolding packet_trace_shape3 replicate_False_shape list.map map_append ml
    using s1(2) pe(3) pd(4) we(4) by (simp only: simp_thms)
  show "map complete_out (trace s (i0 # rest @ [fin, d, e])) =
           replicate (length rest + 2) False @ [\<exists>i\<in>set (rest @ [fin]). complete_in i, False]"
    unfolding packet_trace_shape3 replicate_False_shape list.map map_append mc
    using s1(3) pe(6) pd(5) we(5) by (simp only: simp_thms)
  show "map invalid_out (trace s (i0 # rest @ [fin, d, e])) =
           replicate (length rest + 2) False @ [\<exists>i\<in>set (rest @ [fin]). invalid_in i, False]"
    unfolding packet_trace_shape3 replicate_False_shape list.map map_append mi
    using s1(4) pe(7) pd(6) we(6) by (simp only: simp_thms)
qed

lemma map_fst_marked: "map fst (marked ps) = ps"
  by (simp add: marked_def comp_def map_nth)

lemma streaming_emitted:
  assumes "fsm s = WAIT_FOR_FIRST_BYTE" "in_stream_valid i0" "in_stream_next i0"
    "\<forall>i\<in>set rest. in_stream_valid i"
  shows "map fst (emitted (trace s (i0 # rest))) =
           butlast (in_stream_payload i0 # map in_stream_payload (filter in_stream_next rest))"
proof -
  let ?s1 = "elaborate s i0"
  have s1: "fsm ?s1 = RECEIVE_AND_TRANSMIT" "buffered_byte ?s1 = in_stream_payload i0"
    "\<not> last_sig ?s1" "\<not> out_stream_next ?s1"
    using assms(1-3) by (simp_all add: wait_step)
  have "emitted (trace s (i0 # rest)) = emitted (trace ?s1 rest)"
    using s1(4) by (simp add: emitted_def)
  then show ?thesis
    using rx_emitted[OF s1(1) assms(4) s1(3)] s1(2) by (simp add: comp_def)
qed

section \<open>What each FSM state implies for the outputs\<close>

lemma phase_inv_reset: "phase_inv reset"
  by (simp add: phase_inv_def reset_def)

lemma phase_inv_step:
  assumes "phase_inv s"
  shows "phase_inv (elaborate s i)"
proof (cases "fsm s")
  case WAIT_FOR_FIRST_BYTE
  note w = wait_step[OF WAIT_FOR_FIRST_BYTE, of i]
  show ?thesis
    using w(1-6) by (cases "in_stream_valid i \<and> in_stream_next i") (simp_all add: phase_inv_def)
next
  case RECEIVE_AND_TRANSMIT
  then have a: "\<not> complete_out s" "\<not> invalid_out s" "\<not> last_sig s"
    using assms by (simp_all add: phase_inv_def)
  show ?thesis
  proof (cases "in_stream_valid i")
    case True
    note r = rx_step[OF RECEIVE_AND_TRANSMIT True]
    show ?thesis using r(1-4) a by (simp add: phase_inv_def)
  next
    case False
    note e = end_step[OF RECEIVE_AND_TRANSMIT False]
    show ?thesis using e(1,2,3,6,7) a by (simp add: phase_inv_def)
  qed
next
  case OUTPUT_STROBES
  note d = drain_step[OF OUTPUT_STROBES, of i]
  show ?thesis using d(1,2) by (simp add: phase_inv_def)
qed

lemma phase_inv_clock: "phase_inv s \<Longrightarrow> phase_inv (clock s ins)"
  by (induction ins arbitrary: s) (simp_all add: phase_inv_step)

lemma strobe_origin:
  assumes "phase_inv s" "complete_out (elaborate s i) \<or> invalid_out (elaborate s i)"
  shows "fsm s = OUTPUT_STROBES"
proof (cases "fsm s")
  case WAIT_FOR_FIRST_BYTE
  note w = wait_step[OF WAIT_FOR_FIRST_BYTE, of i]
  from w(5,6) assms(2) show ?thesis by simp
next
  case RECEIVE_AND_TRANSMIT
  then have a: "\<not> complete_out s" "\<not> invalid_out s"
    using assms(1) by (simp_all add: phase_inv_def)
  show ?thesis
  proof (cases "in_stream_valid i")
    case True
    note r = rx_step[OF RECEIVE_AND_TRANSMIT True]
    from r(3,4) a assms(2) show ?thesis by simp
  next
    case False
    note e = end_step[OF RECEIVE_AND_TRANSMIT False]
    from e(6,7) a assms(2) show ?thesis by simp
  qed
next
  case OUTPUT_STROBES
  then show ?thesis .
qed

lemma first_after_idle:
  assumes "fsm s = WAIT_FOR_FIRST_BYTE \<or> (fsm s = RECEIVE_AND_TRANSMIT \<and> is_first_byte s)"
  shows "emitted (trace s ins) = [] \<or> fst (snd (hd (emitted (trace s ins))))"
  using assms
proof (induction ins arbitrary: s)
  case Nil
  then show ?case by (simp add: emitted_def)
next
  case (Cons i ins)
  let ?s' = "elaborate s i"
  have e: "emitted (trace s (i # ins)) =
      (if out_stream_next ?s' then element ?s' # emitted (trace ?s' ins)
       else emitted (trace ?s' ins))"
    by (simp add: emitted_def)
  show ?case
  proof (cases "out_stream_next ?s'")
    case True
    have "first ?s'"
    proof (cases "fsm s = WAIT_FOR_FIRST_BYTE")
      case w: True
      from wait_step(2)[OF w, of i] True show ?thesis by simp
    next
      case False
      with Cons.prems have r: "fsm s = RECEIVE_AND_TRANSMIT" and f: "is_first_byte s"
        by simp_all
      show ?thesis
      proof (cases "in_stream_valid i")
        case v: True
        from rx_step(8)[OF r v] True have "in_stream_next i" by simp
        from rx_step(12)[OF r v this] f show ?thesis by simp
      next
        case v: False
        from end_step(5)[OF r v] f show ?thesis by simp
      qed
    qed
    then show ?thesis
      unfolding e using True by (simp add: element_def)
  next
    case False
    have "fsm ?s' = WAIT_FOR_FIRST_BYTE \<or> (fsm ?s' = RECEIVE_AND_TRANSMIT \<and> is_first_byte ?s')"
    proof (cases "fsm s = WAIT_FOR_FIRST_BYTE")
      case w: True
      show ?thesis
        using wait_step(1,11)[OF w, of i] by (cases "in_stream_valid i \<and> in_stream_next i") simp_all
    next
      case nw: False
      with Cons.prems have r: "fsm s = RECEIVE_AND_TRANSMIT" and f: "is_first_byte s"
        by simp_all
      have v: "in_stream_valid i"
      proof (rule ccontr)
        assume "\<not> in_stream_valid i"
        from end_step(2)[OF r this] False show False by simp
      qed
      from rx_step(8)[OF r v] False have "\<not> in_stream_next i" by simp
      with rx_step(1,10)[OF r v] f show ?thesis by simp
    qed
    from Cons.IH[OF this] show ?thesis
      unfolding e using False by simp
  qed
qed

section \<open>What each state of a packet's trace shows\<close>

lemma rx_trace_step:
  assumes "fsm s = RECEIVE_AND_TRANSMIT" "\<forall>i\<in>set ins. in_stream_valid i" "j < length ins"
  shows "out_stream_next (trace s ins ! j) = in_stream_next (ins ! j)"
    and "in_stream_next (ins ! j) \<Longrightarrow>
           out_stream_payload (trace s ins ! j) =
             last (buffered_byte s # map in_stream_payload (filter in_stream_next (take j ins)))"
    and "in_stream_next (ins ! j) \<Longrightarrow>
           first (trace s ins ! j) = (is_first_byte s \<and> filter in_stream_next (take j ins) = [])"
proof -
  let ?pre = "clock s (take j ins)"
  have v: "\<forall>i\<in>set (take j ins). in_stream_valid i"
    using assms(2) by (auto dest: in_set_takeD)
  have vj: "in_stream_valid (ins ! j)"
    using assms(2,3) by simp
  have st: "trace s ins ! j = elaborate ?pre (ins ! j)"
    using assms(3) by (simp add: trace_nth take_Suc_conv_app_nth clock_snoc)
  note rx = rx_clock[OF assms(1) v]
  note step = rx_step[OF rx(1) vj]
  show "out_stream_next (trace s ins ! j) = in_stream_next (ins ! j)"
    unfolding st by (rule step(8))
  show "out_stream_payload (trace s ins ! j) =
             last (buffered_byte s # map in_stream_payload (filter in_stream_next (take j ins)))"
    if "in_stream_next (ins ! j)"
    unfolding st using step(11)[OF that] rx(7) by simp
  show "first (trace s ins ! j) = (is_first_byte s \<and> filter in_stream_next (take j ins) = [])"
    if "in_stream_next (ins ! j)"
    unfolding st using step(12)[OF that] rx(8) by simp
qed

lemma nth_length_Cons_append: "((p # as) @ bs) ! length as = (p # as) ! length as"
  by (rule nth_append_left) simp

lemma last_Cons_nth: "last (p # as) = (p # as) ! length as"
  by (simp add: last_conv_nth)

lemma last_prefix_nth:
  "last (p # map f (filter P (take j xs))) =
     (p # map f (filter P xs)) ! length (filter P (take j xs))"
proof -
  let ?as = "map f (filter P (take j xs))"
  let ?bs = "map f (filter P (drop j xs))"
  have "filter P xs = filter P (take j xs) @ filter P (drop j xs)"
    by (metis append_take_drop_id filter_append)
  then have s: "p # map f (filter P xs) = (p # ?as) @ ?bs"
    by simp
  have l: "length (filter P (take j xs)) = length ?as"
    by simp
  show ?thesis
    unfolding s l by (simp only: nth_length_Cons_append last_Cons_nth)
qed

lemma packet_nth_gaps:
  assumes "fsm s = WAIT_FOR_FIRST_BYTE" "in_stream_valid i0" "in_stream_next i0"
    "\<forall>i\<in>set rest. in_stream_valid i" "\<not> in_stream_valid fin" "j < length rest"
  shows "out_stream_next (trace s (i0 # rest @ [fin, d]) ! Suc j) = in_stream_next (rest ! j)"
    and "in_stream_next (rest ! j) \<Longrightarrow>
           out_stream_payload (trace s (i0 # rest @ [fin, d]) ! Suc j) =
             (in_stream_payload i0 # map in_stream_payload (filter in_stream_next rest)) !
               length (filter in_stream_next (take j rest))"
    and "in_stream_next (rest ! j) \<Longrightarrow>
           first (trace s (i0 # rest @ [fin, d]) ! Suc j) =
             (filter in_stream_next (take j rest) = [])"
    and "\<not> last_sig (trace s (i0 # rest @ [fin, d]) ! Suc j)"
proof -
  let ?s1 = "elaborate s i0"
  have s1: "fsm ?s1 = RECEIVE_AND_TRANSMIT" "buffered_byte ?s1 = in_stream_payload i0"
    "is_first_byte ?s1" "\<not> last_sig ?s1"
    using assms(1-3) by (simp_all add: wait_step)
  have jl: "j < length (trace ?s1 rest)"
    using assms(6) by (simp only: length_trace)
  have t: "trace s (i0 # rest @ [fin, d]) ! Suc j = trace ?s1 rest ! j"
    unfolding packet_trace_shape nth_Cons_Suc append_assoc using jl by (rule nth_append_left)
  note r = rx_trace_step[OF s1(1) assms(4,6)]
  show "out_stream_next (trace s (i0 # rest @ [fin, d]) ! Suc j) = in_stream_next (rest ! j)"
    unfolding t by (rule r(1))
  show "out_stream_payload (trace s (i0 # rest @ [fin, d]) ! Suc j) =
             (in_stream_payload i0 # map in_stream_payload (filter in_stream_next rest)) !
               length (filter in_stream_next (take j rest))"
    if "in_stream_next (rest ! j)"
    unfolding t using r(2)[OF that] s1(2) by (simp only: last_prefix_nth)
  show "first (trace s (i0 # rest @ [fin, d]) ! Suc j) =
             (filter in_stream_next (take j rest) = [])"
    if "in_stream_next (rest ! j)"
    unfolding t using r(3)[OF that] s1(3) by simp
  show "\<not> last_sig (trace s (i0 # rest @ [fin, d]) ! Suc j)"
    unfolding t using rx_trace(2)[OF s1(1) assms(4,6)] s1(4) by simp
qed

lemma packet_ends_gaps:
  "trace s (i0 # rest @ [fin, d]) ! 0 = elaborate s i0"
  "trace s (i0 # rest @ [fin, d]) ! Suc (length rest) = clock s (i0 # rest @ [fin])"
  "trace s (i0 # rest @ [fin, d]) ! Suc (Suc (length rest)) = clock s (i0 # rest @ [fin, d])"
proof -
  have l: "length (trace (elaborate s i0) rest) = length rest"
    by (rule length_trace)
  show "trace s (i0 # rest @ [fin, d]) ! 0 = elaborate s i0"
    by simp
  have sh: "trace s (i0 # rest @ [fin, d]) = elaborate s i0 # trace (elaborate s i0) rest @
      [clock s (i0 # rest @ [fin]), clock s (i0 # rest @ [fin, d])]"
    by (simp add: trace_append clock_append)
  show "trace s (i0 # rest @ [fin, d]) ! Suc (length rest) = clock s (i0 # rest @ [fin])"
    unfolding sh nth_Cons_Suc l[symmetric] by (simp only: nth_append_length)
  have "(trace (elaborate s i0) rest @
      [clock s (i0 # rest @ [fin]), clock s (i0 # rest @ [fin, d])]) !
      (length (trace (elaborate s i0) rest) + 1) = clock s (i0 # rest @ [fin, d])"
    by (simp only: nth_append_length_plus) simp
  then show "trace s (i0 # rest @ [fin, d]) ! Suc (Suc (length rest)) = clock s (i0 # rest @ [fin, d])"
    unfolding sh nth_Cons_Suc l by simp
qed

section \<open>The claims\<close>

text \<open>
  Claim C1. A packet is fed to a detector in its idle state: the step \<open>i0\<close> that presents
  the first byte (\<open>valid\<close> and \<open>next\<close>), then any steps \<open>rest\<close> with \<open>valid\<close> held, each
  with or without an advance pulse, then a step \<open>fin\<close> with \<open>valid\<close> low and the drain step
  \<open>d\<close>. Its \<open>N\<close> elements are the bytes presented with an advance pulse, \<open>N\<close> being one
  more than the number of advance pulses in \<open>rest\<close>. The processed stream emits exactly
  these \<open>N\<close> elements in order, the first one alone marked first and the last one alone
  marked last. No element shows after \<open>i0\<close>. After a step of \<open>rest\<close> an element shows
  exactly when that step has an advance pulse, and it is then the byte of the advance
  pulse before this one, marked first when that was the pulse of \<open>i0\<close>, never marked
  last. After \<open>fin\<close> the most recent byte shows, marked last. Nothing shows after \<open>d\<close>.
\<close>

theorem boundary_detection:
  assumes "fsm s = WAIT_FOR_FIRST_BYTE" "in_stream_valid i0" "in_stream_next i0"
    "\<forall>i\<in>set rest. in_stream_valid i" "\<not> in_stream_valid fin"
  shows "emitted (trace s (i0 # rest @ [fin, d])) =
           marked (in_stream_payload i0 # map in_stream_payload (filter in_stream_next rest)) \<and>
         length (emitted (trace s (i0 # rest @ [fin, d]))) =
           Suc (length (filter in_stream_next rest)) \<and>
         \<not> out_stream_next (trace s (i0 # rest @ [fin, d]) ! 0) \<and>
         (\<forall>j<length rest.
            out_stream_next (trace s (i0 # rest @ [fin, d]) ! Suc j) = in_stream_next (rest ! j) \<and>
            \<not> last_sig (trace s (i0 # rest @ [fin, d]) ! Suc j) \<and>
            (in_stream_next (rest ! j) \<longrightarrow>
               out_stream_payload (trace s (i0 # rest @ [fin, d]) ! Suc j) =
                 (in_stream_payload i0 # map in_stream_payload (filter in_stream_next rest)) !
                   length (filter in_stream_next (take j rest)) \<and>
               first (trace s (i0 # rest @ [fin, d]) ! Suc j) =
                 (filter in_stream_next (take j rest) = []))) \<and>
         out_stream_next (trace s (i0 # rest @ [fin, d]) ! Suc (length rest)) \<and>
         out_stream_payload (trace s (i0 # rest @ [fin, d]) ! Suc (length rest)) =
           last (in_stream_payload i0 # map in_stream_payload (filter in_stream_next rest)) \<and>
         first (trace s (i0 # rest @ [fin, d]) ! Suc (length rest)) =
           (filter in_stream_next rest = []) \<and>
         last_sig (trace s (i0 # rest @ [fin, d]) ! Suc (length rest)) \<and>
         \<not> out_stream_next (trace s (i0 # rest @ [fin, d]) ! Suc (Suc (length rest)))"
proof -
  let ?ss = "trace s (i0 # rest @ [fin, d])"
  let ?ps = "in_stream_payload i0 # map in_stream_payload (filter in_stream_next rest)"
  have 1: "emitted ?ss = marked ?ps"
    by (rule packet_emitted_gaps[OF assms])
  have 2: "length (emitted ?ss) = Suc (length (filter in_stream_next rest))"
    unfolding 1 by (simp add: marked_def)
  have 3: "\<not> out_stream_next (?ss ! 0)"
    unfolding packet_ends_gaps(1) by (rule wait_step(2)[OF assms(1)])
  have 4: "\<forall>j<length rest.
            out_stream_next (?ss ! Suc j) = in_stream_next (rest ! j) \<and>
            \<not> last_sig (?ss ! Suc j) \<and>
            (in_stream_next (rest ! j) \<longrightarrow>
               out_stream_payload (?ss ! Suc j) =
                 ?ps ! length (filter in_stream_next (take j rest)) \<and>
               first (?ss ! Suc j) = (filter in_stream_next (take j rest) = []))"
  proof (intro allI impI)
    fix j assume j: "j < length rest"
    note n = packet_nth_gaps[OF assms j, of d]
    show "out_stream_next (?ss ! Suc j) = in_stream_next (rest ! j) \<and>
            \<not> last_sig (?ss ! Suc j) \<and>
            (in_stream_next (rest ! j) \<longrightarrow>
               out_stream_payload (?ss ! Suc j) =
                 ?ps ! length (filter in_stream_next (take j rest)) \<and>
               first (?ss ! Suc j) = (filter in_stream_next (take j rest) = []))"
      using n(1) n(4) n(2) n(3) by blast
  qed
  note pe = packet_ended[OF assms]
  have 5: "out_stream_next (?ss ! Suc (length rest))"
    unfolding packet_ends_gaps(2) by (rule pe(2))
  have 6: "out_stream_payload (?ss ! Suc (length rest)) = last ?ps"
    unfolding packet_ends_gaps(2) by (rule pe(4))
  have 7: "first (?ss ! Suc (length rest)) = (filter in_stream_next rest = [])"
    unfolding packet_ends_gaps(2) by (rule pe(5))
  have 8: "last_sig (?ss ! Suc (length rest))"
    unfolding packet_ends_gaps(2) by (rule pe(3))
  have 9: "\<not> out_stream_next (?ss ! Suc (Suc (length rest)))"
    unfolding packet_ends_gaps(3) by (rule packet_drained(2)[OF assms])
  from 1 2 3 4 5 6 7 8 9 show ?thesis
    by - (intro conjI; assumption)
qed

theorem boundary_detection_witness:
  "fsm reset = WAIT_FOR_FIRST_BYTE \<and>
   in_stream_valid (byte_in 0xAA False True) \<and> in_stream_next (byte_in 0xAA False True) \<and>
   in_stream_valid \<lparr> in_stream_valid = True, in_stream_next = False,
      in_stream_payload = 0x55, complete_in = False, invalid_in = False \<rparr> \<and>
   in_stream_valid (byte_in 0xBB True False) \<and>
   \<not> in_stream_valid (inactive 0 False False) \<and>
   emitted (trace reset (byte_in 0xAA False True #
      [\<lparr> in_stream_valid = True, in_stream_next = False,
          in_stream_payload = 0x55, complete_in = False, invalid_in = False \<rparr>,
       byte_in 0xBB True False] @ [inactive 0 False False, inactive 0 False False])) =
     [(0xAA, True, False), (0xBB, False, True)] \<and>
   length (emitted (trace reset (byte_in 0xAA False True #
      [\<lparr> in_stream_valid = True, in_stream_next = False,
          in_stream_payload = 0x55, complete_in = False, invalid_in = False \<rparr>,
       byte_in 0xBB True False] @ [inactive 0 False False, inactive 0 False False]))) = 2"
proof -
  let ?hold = "\<lparr> in_stream_valid = True, in_stream_next = False,
      in_stream_payload = 0x55, complete_in = False, invalid_in = False \<rparr>"
  have h1: "fsm reset = WAIT_FOR_FIRST_BYTE"
    by (simp add: reset_def)
  have h2: "in_stream_valid (byte_in 0xAA False True)" "in_stream_next (byte_in 0xAA False True)"
    by (simp_all add: byte_in_def)
  have h3a: "in_stream_valid ?hold" "in_stream_valid (byte_in 0xBB True False)"
    by (simp_all add: byte_in_def)
  have h3: "\<forall>i\<in>set [?hold, byte_in 0xBB True False]. in_stream_valid i"
    using h3a by simp
  have h4: "\<not> in_stream_valid (inactive 0 False False)"
    by (simp add: inactive_def)
  have m: "marked (in_stream_payload (byte_in 0xAA False True) #
        map in_stream_payload (filter in_stream_next [?hold, byte_in 0xBB True False])) =
      [(0xAA, True, False), (0xBB, False, True)]"
    by (simp add: byte_in_def marked_Cons)
  have l: "Suc (length (filter in_stream_next [?hold, byte_in 0xBB True False])) = 2"
    by (simp add: byte_in_def)
  note t = boundary_detection[OF h1 h2 h3 h4, of "inactive 0 False False", unfolded m l]
  from t have t1: "emitted (trace reset (byte_in 0xAA False True #
      [?hold, byte_in 0xBB True False] @ [inactive 0 False False, inactive 0 False False])) =
     [(0xAA, True, False), (0xBB, False, True)]"
    by (elim conjE)
  from t have t2: "length (emitted (trace reset (byte_in 0xAA False True #
      [?hold, byte_in 0xBB True False] @ [inactive 0 False False, inactive 0 False False]))) = 2"
    by (elim conjE)
  from h1 h2 h3a h4 t1 t2 show ?thesis
    by - (intro conjI; assumption)
qed

text \<open>
  Claim C9. The docstring of \<open>USBOutStreamInterface\<close> maps \<open>rx_active\<close> to \<open>valid\<close>,
  \<open>rx_data\<close> to \<open>payload\<close> and \<open>rx_valid\<close> to \<open>next\<close>. The third connection of
  \<open>bridge_to\<close> reads \<open>self.data\<close> and \<open>utmi_rx.payload\<close> instead: the stream has no field
  \<open>data\<close>, so for every receive interface the call raises \<open>AttributeError\<close> and no
  connection is made.
\<close>

theorem bridge_to_raises:
  "bridge_to (USBOutStreamInterface name payload_width) utmi_rx =
     Inl (AttributeError
       (if ''rx_active'' \<notin> set (map fst (layout utmi_rx)) then ''rx_active''
        else if ''rx_valid'' \<notin> set (map fst (layout utmi_rx)) then ''rx_valid''
        else ''data''))"
  by (simp add: bridge_to_def USBOutStreamInterface_def getattr_def eq_def)

text \<open>
  Claim C5. A single-element packet: one advance pulse captured in the idle state, any
  number of steps with \<open>valid\<close> held and no advance, then \<open>valid\<close> low. The processed
  stream emits exactly one element, the captured byte, with \<open>first\<close> and \<open>last\<close> both
  asserted in the state that shows it.
\<close>

theorem single_element_packet:
  assumes "fsm s = WAIT_FOR_FIRST_BYTE" "in_stream_valid i0" "in_stream_next i0"
    "\<forall>i\<in>set holds. in_stream_valid i \<and> \<not> in_stream_next i" "\<not> in_stream_valid fin"
  shows "emitted (trace s (i0 # holds @ [fin, d])) = [(in_stream_payload i0, True, True)] \<and>
    out_stream_next (clock s (i0 # holds @ [fin])) \<and>
    out_stream_payload (clock s (i0 # holds @ [fin])) = in_stream_payload i0 \<and>
    first (clock s (i0 # holds @ [fin])) \<and>
    last_sig (clock s (i0 # holds @ [fin]))"
proof -
  have v: "\<forall>i\<in>set holds. in_stream_valid i"
    using assms(4) by simp
  have nx: "filter in_stream_next holds = []"
    using assms(4) by (simp add: filter_empty_conv)
  note pe = packet_ended[OF assms(1-3) v assms(5)]
  have "emitted (trace s (i0 # holds @ [fin, d])) = marked [in_stream_payload i0]"
    using packet_emitted_gaps[OF assms(1-3) v assms(5), of d] by (simp add: nx)
  then show ?thesis
    using pe(2,3,4,5) by (simp add: nx marked_def)
qed

theorem single_element_packet_witness:
  "fsm reset = WAIT_FOR_FIRST_BYTE \<and>
   in_stream_valid (byte_in 0x5A True False) \<and> in_stream_next (byte_in 0x5A True False) \<and>
   \<not> in_stream_valid (inactive 0 False False) \<and>
   emitted (trace reset (byte_in 0x5A True False # [] @
      [inactive 0 False False, inactive 0 False False])) = [(0x5A, True, True)]"
proof -
  have h1: "fsm reset = WAIT_FOR_FIRST_BYTE"
    by (simp add: reset_def)
  have h2: "in_stream_valid (byte_in 0x5A True False)" "in_stream_next (byte_in 0x5A True False)"
    by (simp_all add: byte_in_def)
  have h3: "\<forall>i\<in>set []. in_stream_valid i \<and> \<not> in_stream_next i"
    by simp
  have h4: "\<not> in_stream_valid (inactive 0 False False)"
    by (simp add: inactive_def)
  have "in_stream_payload (byte_in 0x5A True False) = 0x5A"
    by (simp add: byte_in_def)
  with single_element_packet[OF h1 h2 h3 h4, of "inactive 0 False False"] h1 h2 h4
  show ?thesis by simp
qed

text \<open>
  Claim C2. From reset, the bytes \<open>0xAA, 0xBB, 0xCC, 0xDD\<close> are presented with \<open>valid\<close> and
  \<open>next\<close> asserted on four consecutive steps, then \<open>valid\<close> is low for one step and for
  any number of further steps, with no status input asserted. The elements the processed
  stream emits are exactly \<open>0xAA\<close> (first), \<open>0xBB\<close>, \<open>0xCC\<close>, \<open>0xDD\<close> (last), and
  \<open>complete_out\<close> and \<open>invalid_out\<close> are low in every state of the run.
\<close>

theorem test_boundary_detection:
  "emitted (trace reset ([byte_in 0xAA False False, byte_in 0xBB False False,
       byte_in 0xCC False False, byte_in 0xDD False False, inactive b False False] @
       replicate n (inactive b' False False))) =
     [(0xAA, True, False), (0xBB, False, False), (0xCC, False, False), (0xDD, False, True)] \<and>
   map complete_out (trace reset ([byte_in 0xAA False False, byte_in 0xBB False False,
       byte_in 0xCC False False, byte_in 0xDD False False, inactive b False False] @
       replicate n (inactive b' False False))) = replicate (5 + n) False \<and>
   map invalid_out (trace reset ([byte_in 0xAA False False, byte_in 0xBB False False,
       byte_in 0xCC False False, byte_in 0xDD False False, inactive b False False] @
       replicate n (inactive b' False False))) = replicate (5 + n) False"
proof -
  let ?pkt = "[byte_in 0xAA False False, byte_in 0xBB False False,
       byte_in 0xCC False False, byte_in 0xDD False False, inactive b False False]"
  let ?idle = "replicate n (inactive b' False False)"
  let ?tl = "trace (clock reset ?pkt) ?idle"
  have idle: "\<forall>i\<in>set ?idle. \<not> (in_stream_valid i \<and> in_stream_next i)"
    by (simp add: inactive_def)
  have q: "\<not> out_stream_next t \<and> \<not> complete_out t \<and> \<not> invalid_out t" if "t \<in> set ?tl" for t
    using after_packet_trace[OF scenario_packet(4,5,6) idle that] .
  have len: "length ?tl = n"
    by (simp add: length_trace)
  have e: "emitted ?tl = []"
    using q by (simp add: emitted_def filter_empty_conv)
  have c: "map complete_out ?tl = replicate n False"
    using map_all_False[of ?tl complete_out] q unfolding len by blast
  have v: "map invalid_out ?tl = replicate n False"
    using map_all_False[of ?tl invalid_out] q unfolding len by blast
  have t: "trace reset (?pkt @ ?idle) = trace reset ?pkt @ ?tl"
    by (rule trace_append)
  have r: "replicate (5 + n) False = [False, False, False, False, False] @ replicate n False"
    by (simp add: numeral_eq_Suc)
  show ?thesis
    unfolding t emitted_append map_append scenario_packet(1,2,3) e c v r by simp
qed

text \<open>
  Claim C3, as stated: a status input asserted on any step of a packet's reception is
  reported after the packet. It fails on the step that captures the first byte: the idle
  state clears the sticky bits on that very edge, so a status input asserted only there is
  dropped. Here \<open>complete_in\<close> and \<open>invalid_in\<close> are asserted together with the only byte
  of a packet; the byte is emitted with \<open>last\<close>, and neither status output is ever asserted.
\<close>

theorem status_on_first_byte_dropped:
  "in_stream_valid (byte_in 0xAA True True) \<and> in_stream_next (byte_in 0xAA True True) \<and>
   complete_in (byte_in 0xAA True True) \<and> invalid_in (byte_in 0xAA True True) \<and>
   map last_sig (trace reset [byte_in 0xAA True True, inactive 0 False False,
      inactive 0 False False, inactive 0 False False]) = [False, True, False, False] \<and>
   map complete_out (trace reset [byte_in 0xAA True True, inactive 0 False False,
      inactive 0 False False, inactive 0 False False]) = [False, False, False, False] \<and>
   map invalid_out (trace reset [byte_in 0xAA True True, inactive 0 False False,
      inactive 0 False False, inactive 0 False False]) = [False, False, False, False]"
  by (simp add: reset_def byte_in_def inactive_def elaborate_def
      wait_for_first_byte_def receive_and_transmit_def output_strobes_def Let_def)

text \<open>
  Claim C3, amended. A packet is the step that captures the first byte in the idle state
  (\<open>i0\<close>), the steps \<open>rest\<close> with \<open>valid\<close> held, and the step \<open>fin\<close> with \<open>valid\<close> low;
  \<open>d\<close> is the drain step and \<open>e\<close> the step after it. \<open>last\<close> is asserted in exactly one
  state, the one after \<open>fin\<close>. \<open>complete_out\<close> (\<open>invalid_out\<close>) is asserted in the state
  right after that one, and only there, exactly when \<open>complete_in\<close> (\<open>invalid_in\<close>) was
  asserted on one of the steps \<open>rest\<close> or \<open>fin\<close>, that is on a step taken in the streaming
  state. The status inputs of the capturing step \<open>i0\<close> do not count.
\<close>

theorem status_strobes_after_last:
  assumes "fsm s = WAIT_FOR_FIRST_BYTE" "in_stream_valid i0" "in_stream_next i0"
    "\<forall>i\<in>set rest. in_stream_valid i" "\<not> in_stream_valid fin"
  shows "map last_sig (trace s (i0 # rest @ [fin, d, e])) =
           replicate (length rest + 1) False @ [True, False, False] \<and>
         map complete_out (trace s (i0 # rest @ [fin, d, e])) =
           replicate (length rest + 2) False @ [\<exists>i\<in>set (rest @ [fin]). complete_in i, False] \<and>
         map invalid_out (trace s (i0 # rest @ [fin, d, e])) =
           replicate (length rest + 2) False @ [\<exists>i\<in>set (rest @ [fin]). invalid_in i, False]"
  using packet_status_trace[OF assms] by (simp only: simp_thms)

theorem status_strobes_after_last_witness:
  "fsm reset = WAIT_FOR_FIRST_BYTE \<and>
   in_stream_valid (byte_in 1 True False) \<and> in_stream_next (byte_in 1 True False) \<and>
   in_stream_valid (byte_in 2 False True) \<and> \<not> in_stream_valid (inactive 0 False False) \<and>
   map last_sig (trace reset (byte_in 1 True False # [byte_in 2 False True] @
      [inactive 0 False False, inactive 0 False False, inactive 0 False False])) =
     [False, False, True, False, False] \<and>
   map complete_out (trace reset (byte_in 1 True False # [byte_in 2 False True] @
      [inactive 0 False False, inactive 0 False False, inactive 0 False False])) =
     [False, False, False, False, False] \<and>
   map invalid_out (trace reset (byte_in 1 True False # [byte_in 2 False True] @
      [inactive 0 False False, inactive 0 False False, inactive 0 False False])) =
     [False, False, False, True, False]"
proof -
  have h1: "fsm reset = WAIT_FOR_FIRST_BYTE"
    by (simp add: reset_def)
  have h2: "in_stream_valid (byte_in 1 True False)" "in_stream_next (byte_in 1 True False)"
    by (simp_all add: byte_in_def)
  have h3: "\<forall>i\<in>set [byte_in 2 False True]. in_stream_valid i"
    by (simp add: byte_in_def)
  have h4: "\<not> in_stream_valid (inactive 0 False False)"
    by (simp add: inactive_def)
  have r: "replicate (length [byte_in 2 False True] + 1) False = [False, False]"
    "replicate (length [byte_in 2 False True] + 2) False = [False, False, False]"
    by (simp_all add: numeral_eq_Suc)
  have c: "(\<exists>i\<in>set ([byte_in 2 False True] @ [inactive 0 False False]). complete_in i) = False"
    "(\<exists>i\<in>set ([byte_in 2 False True] @ [inactive 0 False False]). invalid_in i) = True"
    by (simp_all add: byte_in_def inactive_def)
  show ?thesis
    using status_strobes_after_last[OF h1 h2 h3 h4, of "inactive 0 False False" "inactive 0 False False"]
      h1 h2 h3 h4
    unfolding r c by simp
qed

text \<open>
  Claim C7. From the idle state, whatever the status inputs, as long as no step has
  \<open>valid\<close> and \<open>next\<close> asserted together (the stream goes active and inactive again
  without an advance pulse), every state of the run is the idle state with \<open>next\<close>,
  \<open>first\<close>, \<open>last\<close>, \<open>complete_out\<close> and \<open>invalid_out\<close> low, and nothing is emitted.
\<close>

theorem zero_length_packet:
  assumes "fsm s = WAIT_FOR_FIRST_BYTE"
    "\<forall>i\<in>set ins. \<not> (in_stream_valid i \<and> in_stream_next i)"
  shows "(\<forall>t\<in>set (trace s ins).
            fsm t = WAIT_FOR_FIRST_BYTE \<and> \<not> out_stream_next t \<and> \<not> first t \<and>
            \<not> last_sig t \<and> \<not> complete_out t \<and> \<not> invalid_out t) \<and>
         fsm (clock s ins) = WAIT_FOR_FIRST_BYTE \<and> emitted (trace s ins) = []"
proof -
  have a: "\<forall>t\<in>set (trace s ins).
            fsm t = WAIT_FOR_FIRST_BYTE \<and> \<not> out_stream_next t \<and> \<not> first t \<and>
            \<not> last_sig t \<and> \<not> complete_out t \<and> \<not> invalid_out t"
    using idle_trace[OF assms] by blast
  then have "emitted (trace s ins) = []"
    by (simp add: emitted_def filter_empty_conv)
  with a idle_clock[OF assms] show ?thesis by blast
qed

theorem zero_length_packet_witness:
  "fsm reset = WAIT_FOR_FIRST_BYTE \<and>
   \<not> (in_stream_valid \<lparr> in_stream_valid = True, in_stream_next = False,
         in_stream_payload = 0x11, complete_in = True, invalid_in = True \<rparr> \<and>
       in_stream_next \<lparr> in_stream_valid = True, in_stream_next = False,
         in_stream_payload = 0x11, complete_in = True, invalid_in = True \<rparr>) \<and>
   \<not> (in_stream_valid (inactive 0 False False) \<and> in_stream_next (inactive 0 False False)) \<and>
   fsm (clock reset [\<lparr> in_stream_valid = True, in_stream_next = False,
         in_stream_payload = 0x11, complete_in = True, invalid_in = True \<rparr>,
         inactive 0 False False]) = WAIT_FOR_FIRST_BYTE \<and>
   emitted (trace reset [\<lparr> in_stream_valid = True, in_stream_next = False,
         in_stream_payload = 0x11, complete_in = True, invalid_in = True \<rparr>,
         inactive 0 False False]) = []"
proof -
  have h1: "fsm reset = WAIT_FOR_FIRST_BYTE"
    by (simp add: reset_def)
  have h2: "\<forall>i\<in>set [\<lparr> in_stream_valid = True, in_stream_next = False,
         in_stream_payload = 0x11, complete_in = True, invalid_in = True \<rparr>,
         inactive 0 False False]. \<not> (in_stream_valid i \<and> in_stream_next i)"
    by (simp add: inactive_def)
  show ?thesis
    using zero_length_packet[OF h1 h2] h1 h2 by simp
qed

text \<open>
  Claim C10. For a packet (\<open>i0\<close>, \<open>rest\<close>, \<open>fin\<close> as above), \<open>out_stream.valid\<close> is
  asserted in the state that shows the last element and still asserted after the drain
  step \<open>d\<close>, when the FSM is back in the idle state; it is low after the next step \<open>e\<close>.
  No step taken in the drain state changes \<open>out_stream.valid\<close>, and a step that
  deasserts it is a step taken in the idle state.
\<close>

theorem valid_held_through_drain:
  assumes "fsm s = WAIT_FOR_FIRST_BYTE" "in_stream_valid i0" "in_stream_next i0"
    "\<forall>i\<in>set rest. in_stream_valid i" "\<not> in_stream_valid fin"
  shows "last_sig (clock s (i0 # rest @ [fin])) \<and>
         out_stream_valid (clock s (i0 # rest @ [fin])) \<and>
         fsm (clock s (i0 # rest @ [fin])) = OUTPUT_STROBES \<and>
         out_stream_valid (clock s (i0 # rest @ [fin, d])) \<and>
         fsm (clock s (i0 # rest @ [fin, d])) = WAIT_FOR_FIRST_BYTE \<and>
         \<not> out_stream_valid (clock s (i0 # rest @ [fin, d, e])) \<and>
         (\<forall>s' i. fsm s' = OUTPUT_STROBES \<longrightarrow>
                  out_stream_valid (elaborate s' i) = out_stream_valid s') \<and>
         (\<forall>s' i. out_stream_valid s' \<and> \<not> out_stream_valid (elaborate s' i) \<longrightarrow>
                  fsm s' = WAIT_FOR_FIRST_BYTE)"
proof -
  note pe = packet_ended[OF assms]
  note pd = packet_drained[OF assms, of d]
  have c: "clock s (i0 # rest @ [fin, d, e]) = elaborate (clock s (i0 # rest @ [fin, d])) e"
    using clock_snoc[of s "i0 # rest @ [fin, d]" e] by simp
  have 1: "\<not> out_stream_valid (clock s (i0 # rest @ [fin, d, e]))"
    unfolding c by (rule wait_step(9)[OF pd(1)])
  have 2: "out_stream_valid (elaborate s' i) = out_stream_valid s'"
    if "fsm s' = OUTPUT_STROBES" for s' i
    using that by (rule drain_step(7))
  have 3: "fsm s' = WAIT_FOR_FIRST_BYTE"
    if "out_stream_valid s' \<and> \<not> out_stream_valid (elaborate s' i)" for s' i
  proof (cases "fsm s'")
    case WAIT_FOR_FIRST_BYTE
    then show ?thesis .
  next
    case RECEIVE_AND_TRANSMIT
    then have "out_stream_valid (elaborate s' i)"
      by (cases "in_stream_valid i") (simp_all add: rx_step end_step)
    with that show ?thesis by simp
  next
    case OUTPUT_STROBES
    with that 2 show ?thesis by simp
  qed
  from pe(3,10,1) pd(7,1) 1 2 3 show ?thesis by blast
qed

theorem valid_held_through_drain_witness:
  "fsm reset = WAIT_FOR_FIRST_BYTE \<and>
   in_stream_valid (byte_in 7 False False) \<and> in_stream_next (byte_in 7 False False) \<and>
   \<not> in_stream_valid (inactive 0 False False) \<and>
   map out_stream_valid (trace reset (byte_in 7 False False # [] @
      [inactive 0 False False, inactive 0 False False, inactive 0 False False])) =
     [False, True, True, False] \<and>
   out_stream_valid (clock reset (byte_in 7 False False # [] @
      [inactive 0 False False, inactive 0 False False])) \<and>
   \<not> out_stream_valid (clock reset (byte_in 7 False False # [] @
      [inactive 0 False False, inactive 0 False False, inactive 0 False False]))"
proof -
  have h1: "fsm reset = WAIT_FOR_FIRST_BYTE"
    by (simp add: reset_def)
  have h2: "in_stream_valid (byte_in 7 False False)" "in_stream_next (byte_in 7 False False)"
    by (simp_all add: byte_in_def)
  have h3: "\<forall>i\<in>set []. in_stream_valid i"
    by simp
  have h4: "\<not> in_stream_valid (inactive 0 False False)"
    by (simp add: inactive_def)
  have m: "map out_stream_valid (trace reset (byte_in 7 False False # [] @
      [inactive 0 False False, inactive 0 False False, inactive 0 False False])) =
     [False, True, True, False]"
    by (simp add: reset_def byte_in_def inactive_def elaborate_def
      wait_for_first_byte_def receive_and_transmit_def output_strobes_def Let_def)
  from valid_held_through_drain[OF h1 h2 h3 h4, of "inactive 0 False False" "inactive 0 False False"]
  have "out_stream_valid (clock reset (byte_in 7 False False # [] @
      [inactive 0 False False, inactive 0 False False])) \<and>
   \<not> out_stream_valid (clock reset (byte_in 7 False False # [] @
      [inactive 0 False False, inactive 0 False False, inactive 0 False False]))"
    by blast
  with h1 h2 h4 m show ?thesis by blast
qed

text \<open>
  Claim C4. While a packet is active (the first byte captured in the idle state, then any
  steps \<open>rest\<close> with \<open>valid\<close> held), let \<open>ps\<close> be the bytes presented so far, one per
  advance pulse. The processed stream has emitted all of them but the most recent, in
  order, so it is one element behind; the most recent one is in \<open>buffered_byte\<close>, and the
  FSM is in the streaming state. Once \<open>valid\<close> is sampled low and the drain step is taken,
  all of \<open>ps\<close> has been emitted and the FSM is idle again.
\<close>

theorem one_element_behind:
  assumes "fsm s = WAIT_FOR_FIRST_BYTE" "in_stream_valid i0" "in_stream_next i0"
    "\<forall>i\<in>set rest. in_stream_valid i" "\<not> in_stream_valid fin"
  shows "map fst (emitted (trace s (i0 # rest))) =
           butlast (in_stream_payload i0 # map in_stream_payload (filter in_stream_next rest)) \<and>
         length (emitted (trace s (i0 # rest))) + 1 =
           length (in_stream_payload i0 # map in_stream_payload (filter in_stream_next rest)) \<and>
         buffered_byte (clock s (i0 # rest)) =
           last (in_stream_payload i0 # map in_stream_payload (filter in_stream_next rest)) \<and>
         fsm (clock s (i0 # rest)) = RECEIVE_AND_TRANSMIT \<and>
         map fst (emitted (trace s (i0 # rest @ [fin, d]))) =
           in_stream_payload i0 # map in_stream_payload (filter in_stream_next rest) \<and>
         fsm (clock s (i0 # rest @ [fin, d])) = WAIT_FOR_FIRST_BYTE"
proof -
  let ?ps = "in_stream_payload i0 # map in_stream_payload (filter in_stream_next rest)"
  note se = streaming_emitted[OF assms(1-4)]
  have "length (map fst (emitted (trace s (i0 # rest)))) = length (butlast ?ps)"
    by (simp only: se)
  then have len: "length (emitted (trace s (i0 # rest))) + 1 = length ?ps"
    by simp
  have all: "map fst (emitted (trace s (i0 # rest @ [fin, d]))) = ?ps"
    by (simp only: packet_emitted_gaps[OF assms] map_fst_marked)
  from se len packet_streaming(7,1)[OF assms(1-4)] all packet_drained(1)[OF assms]
  show ?thesis by - (intro conjI; assumption)
qed

theorem one_element_behind_witness:
  "fsm reset = WAIT_FOR_FIRST_BYTE \<and>
   in_stream_valid (byte_in 1 False False) \<and> in_stream_next (byte_in 1 False False) \<and>
   in_stream_valid (byte_in 2 False False) \<and> in_stream_valid (byte_in 3 False False) \<and>
   \<not> in_stream_valid (inactive 0 False False) \<and>
   map fst (emitted (trace reset (byte_in 1 False False #
      [byte_in 2 False False, byte_in 3 False False]))) = [1, 2] \<and>
   buffered_byte (clock reset (byte_in 1 False False #
      [byte_in 2 False False, byte_in 3 False False])) = 3 \<and>
   map fst (emitted (trace reset (byte_in 1 False False #
      [byte_in 2 False False, byte_in 3 False False] @
      [inactive 0 False False, inactive 0 False False]))) = [1, 2, 3]"
proof -
  have h1: "fsm reset = WAIT_FOR_FIRST_BYTE"
    by (simp add: reset_def)
  have h2: "in_stream_valid (byte_in 1 False False)" "in_stream_next (byte_in 1 False False)"
    by (simp_all add: byte_in_def)
  have h3: "\<forall>i\<in>set [byte_in 2 False False, byte_in 3 False False]. in_stream_valid i"
    by (simp add: byte_in_def)
  have h4: "\<not> in_stream_valid (inactive 0 False False)"
    by (simp add: inactive_def)
  have p: "in_stream_payload (byte_in 1 False False) #
      map in_stream_payload (filter in_stream_next [byte_in 2 False False, byte_in 3 False False])
      = [1, 2, 3]"
    by (simp add: byte_in_def)
  have b: "butlast [1, 2, 3::8 word] = [1, 2]" "last [1, 2, 3::8 word] = 3"
    by simp_all
  have h3a: "in_stream_valid (byte_in 2 False False)" "in_stream_valid (byte_in 3 False False)"
    by (simp_all add: byte_in_def)
  note t = one_element_behind[OF h1 h2 h3 h4, of "inactive 0 False False", unfolded p b]
  from t have t1: "map fst (emitted (trace reset (byte_in 1 False False #
      [byte_in 2 False False, byte_in 3 False False]))) = [1, 2]"
    by (elim conjE)
  from t have t2: "buffered_byte (clock reset (byte_in 1 False False #
      [byte_in 2 False False, byte_in 3 False False])) = 3"
    by (elim conjE)
  from t have t3: "map fst (emitted (trace reset (byte_in 1 False False #
      [byte_in 2 False False, byte_in 3 False False] @
      [inactive 0 False False, inactive 0 False False]))) = [1, 2, 3]"
    by (elim conjE)
  from h1 h2 h3a h4 t1 t2 t3 show ?thesis
    by - (intro conjI; assumption)
qed

text \<open>
  Claim C6. Two packets back to back: the first one (\<open>i0\<close>, \<open>rest1\<close>, \<open>fin1\<close>), its drain
  step \<open>d1\<close>, and on the very next step the first byte \<open>j0\<close> of the second one (\<open>rest2\<close>,
  \<open>fin2\<close>, drain step \<open>d2\<close>). The processed stream emits the first packet marked first to
  last, then the second packet marked first to last. The status outputs after the first
  drain step are the status inputs of the first packet's streaming steps; the step that
  captures \<open>j0\<close> leaves the sticky bits and the status outputs low; the status outputs
  after the second drain step are the status inputs of the second packet's streaming
  steps alone.
\<close>

theorem back_to_back_packets:
  assumes "fsm s = WAIT_FOR_FIRST_BYTE"
    "in_stream_valid i0" "in_stream_next i0" "\<forall>i\<in>set rest1. in_stream_valid i"
    "\<not> in_stream_valid fin1"
    "in_stream_valid j0" "in_stream_next j0" "\<forall>i\<in>set rest2. in_stream_valid i"
    "\<not> in_stream_valid fin2"
  shows "emitted (trace s ((i0 # rest1 @ [fin1, d1]) @ (j0 # rest2 @ [fin2, d2]))) =
           marked (in_stream_payload i0 # map in_stream_payload (filter in_stream_next rest1)) @
           marked (in_stream_payload j0 # map in_stream_payload (filter in_stream_next rest2)) \<and>
         complete_out (clock s (i0 # rest1 @ [fin1, d1])) =
           (\<exists>i\<in>set (rest1 @ [fin1]). complete_in i) \<and>
         invalid_out (clock s (i0 # rest1 @ [fin1, d1])) =
           (\<exists>i\<in>set (rest1 @ [fin1]). invalid_in i) \<and>
         \<not> buffered_complete (clock s ((i0 # rest1 @ [fin1, d1]) @ [j0])) \<and>
         \<not> buffered_invalid (clock s ((i0 # rest1 @ [fin1, d1]) @ [j0])) \<and>
         \<not> complete_out (clock s ((i0 # rest1 @ [fin1, d1]) @ [j0])) \<and>
         \<not> invalid_out (clock s ((i0 # rest1 @ [fin1, d1]) @ [j0])) \<and>
         complete_out (clock s ((i0 # rest1 @ [fin1, d1]) @ (j0 # rest2 @ [fin2, d2]))) =
           (\<exists>i\<in>set (rest2 @ [fin2]). complete_in i) \<and>
         invalid_out (clock s ((i0 # rest1 @ [fin1, d1]) @ (j0 # rest2 @ [fin2, d2]))) =
           (\<exists>i\<in>set (rest2 @ [fin2]). invalid_in i)"
proof -
  let ?s' = "clock s (i0 # rest1 @ [fin1, d1])"
  note p1 = packet_drained[OF assms(1-5), of d1]
  note p2 = packet_drained[OF p1(1) assms(6-9), of d2]
  note w = wait_step[OF p1(1), of j0]
  have e: "emitted (trace s ((i0 # rest1 @ [fin1, d1]) @ (j0 # rest2 @ [fin2, d2]))) =
           marked (in_stream_payload i0 # map in_stream_payload (filter in_stream_next rest1)) @
           marked (in_stream_payload j0 # map in_stream_payload (filter in_stream_next rest2))"
    unfolding trace_append emitted_append
    by (simp only: packet_emitted_gaps[OF assms(1-5)] packet_emitted_gaps[OF p1(1) assms(6-9)])
  have j: "clock s ((i0 # rest1 @ [fin1, d1]) @ [j0]) = elaborate ?s' j0"
    by (rule clock_snoc)
  have c: "clock s ((i0 # rest1 @ [fin1, d1]) @ (j0 # rest2 @ [fin2, d2])) =
           clock ?s' (j0 # rest2 @ [fin2, d2])"
    by (rule clock_append)
  show ?thesis
    unfolding j c using e p1(5,6) w(7,8,5,6) p2(5,6) by - (intro conjI; assumption)
qed

theorem back_to_back_packets_witness:
  "fsm reset = WAIT_FOR_FIRST_BYTE \<and>
   in_stream_valid (byte_in 1 False False) \<and> in_stream_next (byte_in 1 False False) \<and>
   in_stream_valid (byte_in 2 True True) \<and> \<not> in_stream_valid (inactive 0 False False) \<and>
   in_stream_valid (byte_in 3 False False) \<and> in_stream_next (byte_in 3 False False) \<and>
   emitted (trace reset ((byte_in 1 False False # [byte_in 2 True True] @
        [inactive 0 False False, inactive 0 False False]) @
      (byte_in 3 False False # [] @ [inactive 0 False False, inactive 0 False False]))) =
     [(1, True, False), (2, False, True), (3, True, True)] \<and>
   complete_out (clock reset (byte_in 1 False False # [byte_in 2 True True] @
        [inactive 0 False False, inactive 0 False False])) \<and>
   \<not> complete_out (clock reset ((byte_in 1 False False # [byte_in 2 True True] @
        [inactive 0 False False, inactive 0 False False]) @
      (byte_in 3 False False # [] @ [inactive 0 False False, inactive 0 False False]))) \<and>
   \<not> invalid_out (clock reset ((byte_in 1 False False # [byte_in 2 True True] @
        [inactive 0 False False, inactive 0 False False]) @
      (byte_in 3 False False # [] @ [inactive 0 False False, inactive 0 False False])))"
proof -
  have h1: "fsm reset = WAIT_FOR_FIRST_BYTE"
    by (simp add: reset_def)
  have h2: "in_stream_valid (byte_in 1 False False)" "in_stream_next (byte_in 1 False False)"
    by (simp_all add: byte_in_def)
  have h3: "\<forall>i\<in>set [byte_in 2 True True]. in_stream_valid i"
    by (simp add: byte_in_def)
  have h4: "\<not> in_stream_valid (inactive 0 False False)"
    by (simp add: inactive_def)
  have h5: "in_stream_valid (byte_in 3 False False)" "in_stream_next (byte_in 3 False False)"
    by (simp_all add: byte_in_def)
  have h6: "\<forall>i\<in>set []. in_stream_valid i"
    by simp
  have m: "marked (in_stream_payload (byte_in 1 False False) #
        map in_stream_payload (filter in_stream_next [byte_in 2 True True])) @
      marked (in_stream_payload (byte_in 3 False False) #
        map in_stream_payload (filter in_stream_next [])) =
     [(1, True, False), (2, False, True), (3, True, True)]"
    by (simp add: byte_in_def marked_Cons)
  have c: "(\<exists>i\<in>set ([byte_in 2 True True] @ [inactive 0 False False]). complete_in i) = True"
    "(\<exists>i\<in>set ([] @ [inactive 0 False False]). complete_in i) = False"
    "(\<exists>i\<in>set ([] @ [inactive 0 False False]). invalid_in i) = False"
    by (simp_all add: byte_in_def inactive_def)
  note t = back_to_back_packets[OF h1 h2 h3 h4 h5 h6 h4,
      of "inactive 0 False False" "inactive 0 False False", unfolded m c]
  have h3': "in_stream_valid (byte_in 2 True True)"
    by (simp add: byte_in_def)
  from t have t1: "emitted (trace reset ((byte_in 1 False False # [byte_in 2 True True] @
        [inactive 0 False False, inactive 0 False False]) @
      (byte_in 3 False False # [] @ [inactive 0 False False, inactive 0 False False]))) =
     [(1, True, False), (2, False, True), (3, True, True)]"
    by (elim conjE)
  from t have t2: "complete_out (clock reset (byte_in 1 False False # [byte_in 2 True True] @
        [inactive 0 False False, inactive 0 False False]))"
    by (simp only: simp_thms)
  from t have t3: "\<not> complete_out (clock reset ((byte_in 1 False False # [byte_in 2 True True] @
        [inactive 0 False False, inactive 0 False False]) @
      (byte_in 3 False False # [] @ [inactive 0 False False, inactive 0 False False])))"
    by (simp only: simp_thms)
  from t have t4: "\<not> invalid_out (clock reset ((byte_in 1 False False # [byte_in 2 True True] @
        [inactive 0 False False, inactive 0 False False]) @
      (byte_in 3 False False # [] @ [inactive 0 False False, inactive 0 False False])))"
    by (simp only: simp_thms)
  from h1 h2 h3' h4 h5 t1 t2 t3 t4 show ?thesis
    by - (intro conjI; assumption)
qed

text \<open>
  Claim C8. In any run from reset, take any state in which \<open>complete_out\<close> or
  \<open>invalid_out\<close> is asserted (the state after the inputs \<open>pre\<close> and one more input \<open>i\<close>).
  That state shows no element (\<open>next\<close> is low), and the state just before it showed an
  element with \<open>last\<close> asserted: the strobes come one step after the last element of the
  packet, neither before nor together with one of its elements. Whatever inputs \<open>post\<close>
  follow, the next element emitted, if there is one, is marked \<open>first\<close>: it belongs to a
  new packet.
\<close>

theorem strobes_follow_last_element:
  assumes "complete_out (clock reset (pre @ [i])) \<or> invalid_out (clock reset (pre @ [i]))"
  shows "pre \<noteq> [] \<and>
         out_stream_next (clock reset pre) \<and> last_sig (clock reset pre) \<and>
         \<not> out_stream_next (clock reset (pre @ [i])) \<and>
         (emitted (trace (clock reset (pre @ [i])) post) = [] \<or>
          fst (snd (hd (emitted (trace (clock reset (pre @ [i])) post)))))"
proof -
  let ?s = "clock reset pre"
  have c: "clock reset (pre @ [i]) = elaborate ?s i"
    by (rule clock_snoc)
  have inv: "phase_inv ?s"
    by (rule phase_inv_clock[OF phase_inv_reset])
  have st: "fsm ?s = OUTPUT_STROBES"
    using strobe_origin[OF inv] assms unfolding c by blast
  have ne: "pre \<noteq> []"
  proof
    assume "pre = []"
    with st show False by (simp add: reset_def)
  qed
  have ol: "out_stream_next ?s" "last_sig ?s"
    using inv st by (simp_all add: phase_inv_def)
  note d = drain_step[OF st, of i]
  have "emitted (trace (elaborate ?s i) post) = [] \<or>
          fst (snd (hd (emitted (trace (elaborate ?s i) post))))"
    by (rule first_after_idle) (simp add: d(1))
  with ne ol d(2) show ?thesis
    unfolding c by - (intro conjI; assumption)
qed

theorem strobes_follow_last_element_witness:
  "complete_out (clock reset ([byte_in 1 False False, inactive 0 True False] @
      [inactive 0 False False])) \<and>
   out_stream_next (clock reset [byte_in 1 False False, inactive 0 True False]) \<and>
   last_sig (clock reset [byte_in 1 False False, inactive 0 True False]) \<and>
   \<not> out_stream_next (clock reset ([byte_in 1 False False, inactive 0 True False] @
      [inactive 0 False False]))"
proof -
  have h: "complete_out (clock reset ([byte_in 1 False False, inactive 0 True False] @
      [inactive 0 False False]))"
    by (simp add: reset_def byte_in_def inactive_def elaborate_def
      wait_for_first_byte_def receive_and_transmit_def output_strobes_def Let_def)
  then have h': "complete_out (clock reset ([byte_in 1 False False, inactive 0 True False] @
      [inactive 0 False False])) \<or> invalid_out (clock reset ([byte_in 1 False False, inactive 0 True False] @
      [inactive 0 False False]))"
    by (rule disjI1)
  note t = strobes_follow_last_element[OF h', of "[]"]
  from t have t1: "out_stream_next (clock reset [byte_in 1 False False, inactive 0 True False])"
    by (elim conjE)
  from t have t2: "last_sig (clock reset [byte_in 1 False False, inactive 0 True False])"
    by (elim conjE)
  from t have t3: "\<not> out_stream_next (clock reset ([byte_in 1 False False, inactive 0 True False] @
      [inactive 0 False False]))"
    by (elim conjE)
  from h t1 t2 t3 show ?thesis
    by - (intro conjI; assumption)
qed

end
